theory Spec2Isabelle
  imports Main "HOL-Library.Char_ord"
begin

section \<open>Go runtime and library notions used by router.go\<close>

text \<open>
  Go strings are byte sequences; they are modelled as \<open>string\<close> (a list of \<open>char\<close>,
  one per byte). A panic is a value of type \<open>panic\<close>. A runtime index or slice fault
  carries the line of router.go whose index expression faults, so that the faults of
  different statements can be told apart.
\<close>

datatype panic =
    InvalidMethod
  | MethodNotRegistered
  | IndexOutOfRange nat
  | SliceBoundsOutOfRange nat
  | RegexpCompile string
  | HandlerPanic string

definition bslash :: char where
  "bslash = CHR 0x5C"

text \<open>
  \<open>strings.Split(s, sep)\<close> for a one-byte separator: the pieces of \<open>s\<close> between the
  occurrences of the separator. The result is never empty: \<open>Split("", "/")\<close> is the
  one-element slice holding the empty string.
\<close>

fun Split :: "string \<Rightarrow> char \<Rightarrow> string list" where
  "Split [] sep = [[]]"
| "Split (x # xs) sep =
     (if x = sep then [] # Split xs sep
      else (case Split xs sep of
              [] \<Rightarrow> [[x]]
            | y # ys \<Rightarrow> (x # y) # ys))"

subsection \<open>The regexp package\<close>

text \<open>
  The package \<open>regexp\<close> is not part of the repository. router.go calls two of its
  functions, and is modelled over any implementation of them: \<open>MustCompile\<close>, where
  \<open>None\<close> stands for a panic, and \<open>FindSubmatch\<close>, where \<open>None\<close> stands for the
  nil result and the elements of a result are the slices converted with \<open>string(v)\<close>
  (the empty string for a group that took no part in the match).
\<close>

record 're regexp_pkg =
  MustCompile :: "string \<Rightarrow> 're option"
  FindSubmatch :: "'re \<Rightarrow> string \<Rightarrow> string list option"

subsection \<open>A reference semantics for a fragment of the pattern syntax\<close>

text \<open>
  What the package documents for the patterns router.go builds from plain segments and
  its own parameter classes is written out here as a reference: leftmost-first matching
  (among the matches that start earliest, the one a backtracking search finds first)
  for the fragment of the syntax made of literal bytes, \<open>.\<close>, bracket classes with
  ranges and the escapes \<open>\d \w \s\<close>, the escapes \<open>\d \w \s \D \W \S\<close> and escaped
  punctuation outside classes, capturing groups, alternation and the greedy operators
  \<open>* + ?\<close>. The reference reads bytes, so it is the package's result on ASCII text.
  It says nothing about a pattern outside the fragment: \<open>fragment_compile\<close> is \<open>None\<close>
  there, which is not a statement about \<open>MustCompile\<close>. The router is never defined
  through the reference; a property that needs the meaning of a pattern assumes, for
  that pattern and that request, that the package returns what the reference returns
  (\<open>conforms\<close>, below).

  \<open>backtrack r s c\<close> lists, in the order of the search, the ways \<open>r\<close> matches a prefix
  of \<open>s\<close>: the input left over and the captures.
\<close>

datatype regex =
    Eps
  | Chr char
  | Dot
  | Cls bool "(char \<times> char) list"
  | Seq regex regex
  | Alt regex regex
  | Star regex
  | Grp nat regex

type_synonym caps = "nat \<Rightarrow> string option"

definition in_ranges :: "char \<Rightarrow> (char \<times> char) list \<Rightarrow> bool" where
  "in_ranges c rs = list_ex (\<lambda>(lo, hi). lo \<le> c \<and> c \<le> hi) rs"

fun backtrack :: "regex \<Rightarrow> string \<Rightarrow> caps \<Rightarrow> (string \<times> caps) list" where
  "backtrack Eps s c = [(s, c)]"
| "backtrack (Chr a) s c =
     (case s of [] \<Rightarrow> [] | x # xs \<Rightarrow> if x = a then [(xs, c)] else [])"
| "backtrack Dot s c =
     (case s of [] \<Rightarrow> [] | x # xs \<Rightarrow> if x \<noteq> CHR 0x0A then [(xs, c)] else [])"
| "backtrack (Cls neg rs) s c =
     (case s of [] \<Rightarrow> [] | x # xs \<Rightarrow> if in_ranges x rs \<noteq> neg then [(xs, c)] else [])"
| "backtrack (Seq r1 r2) s c =
     concat (map (\<lambda>(s', c'). backtrack r2 s' c') (backtrack r1 s c))"
| "backtrack (Alt r1 r2) s c = backtrack r1 s c @ backtrack r2 s c"
| "backtrack (Star r) s c =
     concat (map (\<lambda>(s', c'). if length s' < length s then backtrack (Star r) s' c' else [])
               (backtrack r s c)) @ [(s, c)]"
| "backtrack (Grp i r) s c =
     map (\<lambda>(s', c'). (s', c'(i \<mapsto> take (length s - length s') s))) (backtrack r s c)"

text \<open>The leftmost match: the first start offset at which the search succeeds.\<close>

fun find_leftmost :: "regex \<Rightarrow> string \<Rightarrow> (string \<times> caps) option" where
  "find_leftmost r [] =
     (case backtrack r [] Map.empty of
        [] \<Rightarrow> None
      | (rest, c) # _ \<Rightarrow> Some ([], c))"
| "find_leftmost r (x # xs) =
     (case backtrack r (x # xs) Map.empty of
        [] \<Rightarrow> find_leftmost r xs
      | (rest, c) # _ \<Rightarrow> Some (take (length (x # xs) - length rest) (x # xs), c))"

text \<open>A pattern of the fragment: the syntax tree and the number of capturing groups.\<close>

type_synonym Regexp = "regex \<times> nat"

text \<open>
  The submatches of the leftmost match: element 0 is the text of the match and element
  \<open>i\<close> the text of group \<open>i\<close>, empty for a group that took no part in the match.
\<close>

definition leftmost_submatch :: "Regexp \<Rightarrow> string \<Rightarrow> string list option" where
  "leftmost_submatch re s =
     (case find_leftmost (fst re) s of
        None \<Rightarrow> None
      | Some (m, c) \<Rightarrow>
          Some (m # map (\<lambda>i. case c i of None \<Rightarrow> [] | Some v \<Rightarrow> v) [1 ..< Suc (snd re)]))"

datatype token =
    TChr char | TDot | TCls bool "(char \<times> char) list"
  | TStar | TPlus | TQuest | TBar | TLpar | TRpar

definition digit_ranges :: "(char \<times> char) list" where
  "digit_ranges = [(CHR ''0'', CHR ''9'')]"

definition word_ranges :: "(char \<times> char) list" where
  "word_ranges = [(CHR ''0'', CHR ''9''), (CHR ''A'', CHR ''Z''), (CHR ''_'', CHR ''_''),
                  (CHR ''a'', CHR ''z'')]"

definition space_ranges :: "(char \<times> char) list" where
  "space_ranges = [(CHR 0x09, CHR 0x0A), (CHR 0x0C, CHR 0x0D), (CHR '' '', CHR '' '')]"

definition alnum_ranges :: "(char \<times> char) list" where
  "alnum_ranges = [(CHR ''0'', CHR ''9''), (CHR ''A'', CHR ''Z''), (CHR ''a'', CHR ''z'')]"

text \<open>An escaped ASCII byte that is neither a letter nor a digit stands for itself.\<close>

definition is_punct :: "char \<Rightarrow> bool" where
  "is_punct c = (c < CHR 0x80 \<and> \<not> in_ranges c alnum_ranges)"

definition class_escape :: "char \<Rightarrow> (char \<times> char) list option" where
  "class_escape d =
     (if d = CHR ''d'' then Some digit_ranges
      else if d = CHR ''w'' then Some word_ranges
      else if d = CHR ''s'' then Some space_ranges
      else if is_punct d then Some [(d, d)]
      else None)"

definition escape_token :: "char \<Rightarrow> token option" where
  "escape_token d =
     (if d = CHR ''d'' then Some (TCls False digit_ranges)
      else if d = CHR ''w'' then Some (TCls False word_ranges)
      else if d = CHR ''s'' then Some (TCls False space_ranges)
      else if d = CHR ''D'' then Some (TCls True digit_ranges)
      else if d = CHR ''W'' then Some (TCls True word_ranges)
      else if d = CHR ''S'' then Some (TCls True space_ranges)
      else if is_punct d then Some (TChr d)
      else None)"

fun lex :: "string \<Rightarrow> token list option"
  and lex_class :: "bool \<Rightarrow> (char \<times> char) list \<Rightarrow> string \<Rightarrow> token list option" where
  "lex [] = Some []"
| "lex (c # cs) =
     (if c = bslash then
        (case cs of
           [] \<Rightarrow> None
         | d # ds \<Rightarrow>
             (case escape_token d of
                None \<Rightarrow> None
              | Some t \<Rightarrow> map_option ((#) t) (lex ds)))
      else if c = CHR ''['' then
        (case cs of
           [] \<Rightarrow> None
         | d # ds \<Rightarrow> if d = CHR ''^'' then lex_class True [] ds else lex_class False [] cs)
      else if c = CHR ''.'' then map_option ((#) TDot) (lex cs)
      else if c = CHR ''*'' then map_option ((#) TStar) (lex cs)
      else if c = CHR ''+'' then map_option ((#) TPlus) (lex cs)
      else if c = CHR ''?'' then map_option ((#) TQuest) (lex cs)
      else if c = CHR ''|'' then map_option ((#) TBar) (lex cs)
      else if c = CHR ''('' then map_option ((#) TLpar) (lex cs)
      else if c = CHR '')'' then map_option ((#) TRpar) (lex cs)
      else if c = CHR ''{'' \<or> c = CHR ''^'' \<or> c = CHR ''$'' then None
      else map_option ((#) (TChr c)) (lex cs))"
| "lex_class neg acc [] = None"
| "lex_class neg acc (c # cs) =
     (if c = CHR '']'' then
        (if acc = [] then None else map_option ((#) (TCls neg acc)) (lex cs))
      else if c = CHR ''['' then None
      else if c = bslash then
        (case cs of
           [] \<Rightarrow> None
         | d # ds \<Rightarrow>
             (case class_escape d of
                None \<Rightarrow> None
              | Some rs \<Rightarrow> lex_class neg (acc @ rs) ds))
      else
        (case cs of
           d # e # es \<Rightarrow>
             if d = CHR ''-'' \<and> e \<noteq> CHR '']'' then
               (if e = bslash \<or> e < c then None else lex_class neg (acc @ [(c, e)]) es)
             else lex_class neg (acc @ [(c, c)]) cs
         | _ \<Rightarrow> lex_class neg (acc @ [(c, c)]) cs))"

text \<open>
  The parser is a single pass over the tokens with a stack of open groups, as the
  package's own parser is. A frame holds the finished alternatives of the group being
  read and, in reverse, the items of the alternative being read. Groups are numbered by
  their opening parenthesis, from 1.
\<close>

type_synonym frame = "regex list \<times> regex list"

definition mkseq :: "regex list \<Rightarrow> regex" where
  "mkseq cur = foldr Seq (rev cur) Eps"

definition finish :: "frame \<Rightarrow> regex" where
  "finish f = foldr Alt (fst f) (mkseq (snd f))"

definition is_rep :: "token \<Rightarrow> bool" where
  "is_rep t = (t = TStar \<or> t = TPlus \<or> t = TQuest)"

definition repeat :: "token \<Rightarrow> regex \<Rightarrow> regex" where
  "repeat t r = (if t = TStar then Star r else if t = TPlus then Seq r (Star r) else Alt r Eps)"

fun parse :: "token list \<Rightarrow> nat \<Rightarrow> frame \<Rightarrow> (nat \<times> frame) list \<Rightarrow> Regexp option" where
  "parse [] n f [] = Some (finish f, n)"
| "parse [] n f (p # st) = None"
| "parse (t # ts) n f st =
     (case t of
        TChr c \<Rightarrow> parse ts n (fst f, Chr c # snd f) st
      | TDot \<Rightarrow> parse ts n (fst f, Dot # snd f) st
      | TCls neg rs \<Rightarrow> parse ts n (fst f, Cls neg rs # snd f) st
      | TBar \<Rightarrow> parse ts n (fst f @ [mkseq (snd f)], []) st
      | TLpar \<Rightarrow> parse ts (Suc n) ([], []) ((Suc n, f) # st)
      | TRpar \<Rightarrow>
          (case st of
             [] \<Rightarrow> None
           | (i, pf) # st' \<Rightarrow> parse ts n (fst pf, Grp i (finish f) # snd pf) st')
      | _ \<Rightarrow>
          (case snd f of
             [] \<Rightarrow> None
           | r # rs \<Rightarrow>
               if ts \<noteq> [] \<and> is_rep (hd ts) then None
               else parse ts n (fst f, repeat t r # rs) st))"

text \<open>The pattern of the fragment that a text denotes; \<open>None\<close> outside the fragment.\<close>

definition fragment_compile :: "string \<Rightarrow> Regexp option" where
  "fragment_compile p = (case lex p of None \<Rightarrow> None | Some ts \<Rightarrow> parse ts 0 ([], []) [])"

section \<open>router.go\<close>

subsection \<open>Package variables\<close>

definition defaultPattern :: string where
  "defaultPattern = ''['' @ [bslash] @ ''w]+''"

definition idPattern :: string where
  "idPattern = ''['' @ [bslash] @ ''d]+''"

definition idKey :: string where
  "idKey = ''id''"

definition methods :: "string \<rightharpoonup> bool" where
  "methods = [''GET'' \<mapsto> True, ''POST'' \<mapsto> True, ''PUT'' \<mapsto> True, ''DELETE'' \<mapsto> True,
              ''PATCH'' \<mapsto> True]"

subsection \<open>matchAndParse\<close>

type_synonym paramsMapType = "string \<rightharpoonup> string"

text \<open>
  The loop of \<open>matchAndParse\<close> over the segments of the route path: it collects the
  parameter names (\<open>matchName\<close>) and builds the pattern text (\<open>sTemp\<close>). Line 252 reads
  \<open>res[1]\<close> of a braced segment split at \<open>:\<close>, line 256 that of a segment that starts
  with \<open>:\<close>.
\<close>

fun compileSegments :: "string list \<Rightarrow> string list \<Rightarrow> string \<Rightarrow> panic + (string list \<times> string)" where
  "compileSegments [] matchName sTemp = Inr (matchName, sTemp)"
| "compileSegments (str # rest) matchName sTemp =
     (if str = [] then compileSegments rest matchName sTemp
      else if hd str = CHR ''{'' \<and> last str = CHR ''}'' then
        (let matchStr = drop 1 (take (length str - 1) str);
             res = Split matchStr (CHR '':'')
         in if length res < 2 then Inl (IndexOutOfRange 252)
            else compileSegments rest (matchName @ [res ! 0])
                   (sTemp @ ''/'' @ ''('' @ res ! 1 @ '')''))
      else if hd str = CHR '':'' then
        (let res = Split str (CHR '':'')
         in if length res < 2 then Inl (IndexOutOfRange 256)
            else compileSegments rest (matchName @ [res ! 1])
                   (sTemp @ ''/'' @ ''('' @ (if res ! 1 = idKey then idPattern else defaultPattern)
                      @ '')''))
      else compileSegments rest matchName (sTemp @ ''/'' @ str))"

definition compilePath :: "string \<Rightarrow> panic + (string list \<times> string)" where
  "compilePath path = compileSegments (Split path (CHR ''/'')) [] []"


text \<open>
  The loop of lines 276 to 278: group \<open>k\<close> is stored under \<open>matchName[k]\<close>; a group
  beyond the names faults at line 277.
\<close>

fun bindParams :: "string list \<Rightarrow> string list \<Rightarrow> paramsMapType \<Rightarrow> panic + paramsMapType" where
  "bindParams matchName [] matchParams = Inr matchParams"
| "bindParams [] (v # vs) matchParams = Inl (IndexOutOfRange 277)"
| "bindParams (n # ns) (v # vs) matchParams = bindParams ns vs (matchParams(n \<mapsto> v))"

text \<open>
  \<open>matchAndParse\<close>: \<open>Inr (Some m)\<close> is the result \<open>(m, true)\<close>, \<open>Inr None\<close> the result
  \<open>(nil, false)\<close>, \<open>Inl e\<close> a panic. Line 274 reads \<open>subMatch[0]\<close>.
\<close>

definition matchAndParse :: "'re regexp_pkg \<Rightarrow> string \<Rightarrow> string \<Rightarrow> panic + paramsMapType option" where
  "matchAndParse E requestUrl path =
     (case compilePath path of
        Inl e \<Rightarrow> Inl e
      | Inr (matchName, pattern) \<Rightarrow>
          (case MustCompile E pattern of
             None \<Rightarrow> Inl (RegexpCompile pattern)
           | Some re \<Rightarrow>
               (case FindSubmatch E re requestUrl of
                  None \<Rightarrow> Inr None
                | Some subMatch \<Rightarrow>
                    (case subMatch of
                       [] \<Rightarrow> Inl (IndexOutOfRange 274)
                     | whole # groups \<Rightarrow>
                         if whole = requestUrl then
                           (case bindParams matchName groups Map.empty of
                              Inl e \<Rightarrow> Inl e
                            | Inr m \<Rightarrow> Inr (Some m))
                         else Inr None))))"

definition Match :: "'re regexp_pkg \<Rightarrow> string \<Rightarrow> string \<Rightarrow> panic + bool" where
  "Match E requestUrl path =
     (case matchAndParse E requestUrl path of Inl e \<Rightarrow> Inl e | Inr r \<Rightarrow> Inr (r \<noteq> None))"

text \<open>
  The reference as an implementation of the two functions, and what it means for an
  implementation to return, for the pattern text of a route path and a subject text,
  what the reference returns.
\<close>

definition reference_pkg :: "Regexp regexp_pkg" where
  "reference_pkg = \<lparr>MustCompile = fragment_compile, FindSubmatch = leftmost_submatch\<rparr>"

definition conforms :: "'re regexp_pkg \<Rightarrow> string \<Rightarrow> string \<Rightarrow> bool" where
  "conforms E path s =
     (case compilePath path of
        Inl e \<Rightarrow> False
      | Inr (matchName, pattern) \<Rightarrow>
          (case fragment_compile pattern of
             None \<Rightarrow> False
           | Some fr \<Rightarrow>
               (case MustCompile E pattern of
                  None \<Rightarrow> False
                | Some re \<Rightarrow> FindSubmatch E re s = leftmost_submatch fr s)))"

subsection \<open>Requests, responses, handlers\<close>

text \<open>
  Of a request the router reads the method, the URL path and the value its context
  holds under the package's private \<open>contextKey\<close> (\<open>None\<close> when the context holds
  none). Of a response the model keeps the status (0 while no header is written) and
  the bytes written. A handler returns the response it leaves, or panics with a message.
\<close>

record Request =
  Method :: string
  URL_Path :: string
  ctxParams :: "paramsMapType option"

record ResponseWriter =
  statusCode :: nat
  written :: string

type_synonym HandlerFunc = "ResponseWriter \<Rightarrow> Request \<Rightarrow> string + ResponseWriter"

type_synonym MiddlewareType = "HandlerFunc \<Rightarrow> HandlerFunc"

text \<open>\<open>GetAllParams\<close>: \<open>None\<close> is the nil map.\<close>

definition GetAllParams :: "Request \<Rightarrow> paramsMapType option" where
  "GetAllParams r = ctxParams r"

text \<open>\<open>GetParam\<close>: indexing a nil map, or a map without the key, gives the empty string.\<close>

definition GetParam :: "Request \<Rightarrow> string \<Rightarrow> string" where
  "GetParam r key =
     (case GetAllParams r of
        None \<Rightarrow> []
      | Some m \<Rightarrow> (case m key of None \<Rightarrow> [] | Some v \<Rightarrow> v))"

text \<open>\<open>http.NotFound\<close>: status 404 unless a header was written, and the standard text.\<close>

definition http_NotFound :: HandlerFunc where
  "http_NotFound w r =
     Inr (w\<lparr>statusCode := (if statusCode w = 0 then 404 else statusCode w),
            written := written w @ ''404 page not found'' @ [CHR 0x0A]\<rparr>)"

text \<open>\<open>handle\<close>: each middleware of the list, in list order, wraps the handler built so far.\<close>

definition handle :: "ResponseWriter \<Rightarrow> Request \<Rightarrow> HandlerFunc \<Rightarrow> MiddlewareType list
    \<Rightarrow> string + ResponseWriter" where
  "handle w r handler mws = (foldl (\<lambda>baseHandler m. m baseHandler) handler mws) w r"

subsection \<open>The route tree\<close>

text \<open>
  Modelled from the spec: the type \<open>Tree\<close>, its nodes and the functions \<open>NewTree\<close>,
  \<open>Add\<close> and \<open>Find\<close> are not in router.go, which only calls them and reads a node's
  \<open>path\<close>, \<open>handle\<close> and \<open>middleware\<close>. Section 4.2 of the spec: a tree holds an
  exact-key index from a full path to a route and buckets from a first segment to the
  routes registered under it, in registration order.
\<close>

record Node =
  node_path :: string
  node_handle :: "HandlerFunc option"
  node_middleware :: "MiddlewareType list"

record Tree =
  exact :: "string \<rightharpoonup> Node"
  buckets :: "string \<Rightarrow> Node list"

definition NewTree :: Tree where
  "NewTree = \<lparr>exact = Map.empty, buckets = (\<lambda>key. [])\<rparr>"

text \<open>
  Modelled from the spec: the first segment of a path, the key of its bucket. Empty
  segments are skipped, as the compiler skips them.
\<close>

definition firstSegment :: "string \<Rightarrow> string" where
  "firstSegment p = (case filter (\<lambda>s. s \<noteq> []) (Split p (CHR ''/'')) of [] \<Rightarrow> [] | s # ss \<Rightarrow> s)"

text \<open>
  Modelled from the spec: \<open>Tree.Add\<close> (section 4.2). It compiles the path with the
  pattern compiler of section 4.1, which router.go has as the segment loop of
  \<open>matchAndParse\<close>; a fault of the compiler aborts the call. The route joins the bucket
  of its first segment, and a path without parameters is also stored under its full
  path, replacing an earlier route of the same path.
\<close>

definition Tree_Add :: "Tree \<Rightarrow> string \<Rightarrow> HandlerFunc \<Rightarrow> MiddlewareType list \<Rightarrow> panic + Tree" where
  "Tree_Add t p h mws =
     (case compilePath p of
        Inl e \<Rightarrow> Inl e
      | Inr (names, pattern) \<Rightarrow>
          (let node = \<lparr>node_path = p, node_handle = Some h, node_middleware = mws\<rparr>;
               t1 = t\<lparr>buckets := (buckets t)(firstSegment p := buckets t (firstSegment p) @ [node])\<rparr>
           in Inr (if names = [] then t1\<lparr>exact := (exact t)(p \<mapsto> node)\<rparr> else t1)))"

text \<open>
  Modelled from the spec: \<open>Tree.Find\<close> (section 4.2). Mode 0 is the exact lookup: the
  route stored under the key, or else (section 4.3, step 2) under the key without one
  leading slash. Any other mode returns the bucket of the key. Absence is the empty list.
\<close>

definition Find :: "Tree \<Rightarrow> string \<Rightarrow> nat \<Rightarrow> Node list" where
  "Find t key mode =
     (if mode = 0 then
        (case exact t key of
           Some n \<Rightarrow> [n]
         | None \<Rightarrow>
             (case key of
                [] \<Rightarrow> []
              | c # rest \<Rightarrow>
                  if c = CHR ''/'' then (case exact t rest of Some n \<Rightarrow> [n] | None \<Rightarrow> [])
                  else []))
      else buckets t key)"

subsection \<open>The router\<close>

record Router =
  prefix :: string
  middleware :: "MiddlewareType list"
  trees :: "string \<rightharpoonup> Tree"
  notFound :: "HandlerFunc option"
  PanicHandler :: "(ResponseWriter \<Rightarrow> Request \<Rightarrow> panic \<Rightarrow> ResponseWriter) option"

definition New :: Router where
  "New = \<lparr>prefix = [], middleware = [], trees = Map.empty, notFound = None, PanicHandler = None\<rparr>"

definition NotFoundFunc :: "Router \<Rightarrow> HandlerFunc \<Rightarrow> Router" where
  "NotFoundFunc router handler = router\<lparr>notFound := Some handler\<rparr>"

definition Use :: "Router \<Rightarrow> MiddlewareType list \<Rightarrow> Router" where
  "Use router mws =
     (if length mws > 0 then router\<lparr>middleware := middleware router @ mws\<rparr> else router)"

text \<open>Lines 105 to 107: the path of a route registered through a group.\<close>

definition fullPath :: "Router \<Rightarrow> string \<Rightarrow> string" where
  "fullPath router p = (if prefix router \<noteq> [] then prefix router @ ''/'' @ p else p)"

text \<open>
  \<open>Group\<close> (lines 80 to 86): a router with the prefix given, the middleware the parent
  has at that moment, and the parent's map of trees. The map is shared, not copied: what
  a registration through the group does to the trees, the parent sees.
\<close>

definition Group :: "Router \<Rightarrow> string \<Rightarrow> Router" where
  "Group router pfx =
     \<lparr>prefix = pfx, middleware = middleware router, trees = trees router,
      notFound = None, PanicHandler = None\<rparr>"

text \<open>
  \<open>Handle\<close> returns the panic it raises, if any, and the router it leaves: line 102
  stores the tree of a method that had none before line 109 adds the route, so the
  tree stays when adding faults. The route is added under the path, behind the prefix
  of a group.
\<close>

definition Handle :: "Router \<Rightarrow> string \<Rightarrow> string \<Rightarrow> HandlerFunc \<Rightarrow> panic option \<times> Router" where
  "Handle router meth p h =
     (if methods meth = None then (Some InvalidMethod, router)
      else
        (let root = (case trees router meth of None \<Rightarrow> NewTree | Some t \<Rightarrow> t);
             p' = fullPath router p
         in case Tree_Add root p' h (middleware router) of
              Inl e \<Rightarrow> (Some e, router\<lparr>trees := (trees router)(meth \<mapsto> root)\<rparr>)
            | Inr root' \<Rightarrow> (None, router\<lparr>trees := (trees router)(meth \<mapsto> root')\<rparr>)))"

definition GET :: "Router \<Rightarrow> string \<Rightarrow> HandlerFunc \<Rightarrow> panic option \<times> Router" where
  "GET router p h = Handle router ''GET'' p h"

definition POST :: "Router \<Rightarrow> string \<Rightarrow> HandlerFunc \<Rightarrow> panic option \<times> Router" where
  "POST router p h = Handle router ''POST'' p h"

definition DELETE :: "Router \<Rightarrow> string \<Rightarrow> HandlerFunc \<Rightarrow> panic option \<times> Router" where
  "DELETE router p h = Handle router ''DELETE'' p h"

definition PUT :: "Router \<Rightarrow> string \<Rightarrow> HandlerFunc \<Rightarrow> panic option \<times> Router" where
  "PUT router p h = Handle router ''PUT'' p h"

definition PATCH :: "Router \<Rightarrow> string \<Rightarrow> HandlerFunc \<Rightarrow> panic option \<times> Router" where
  "PATCH router p h = Handle router ''PATCH'' p h"

definition HandleNotFound :: "Router \<Rightarrow> ResponseWriter \<Rightarrow> Request \<Rightarrow> MiddlewareType list
    \<Rightarrow> string + ResponseWriter" where
  "HandleNotFound router w r mws =
     (case notFound router of
        Some nf \<Rightarrow> handle w r nf mws
      | None \<Rightarrow> http_NotFound w r)"

text \<open>
  The outcome of the body of \<open>ServeHTTP\<close>: the response, or a panic together with the
  request that the variable \<open>r\<close> holds when the panic is raised (line 183 reassigns it,
  and the deferred function reads it).
\<close>

type_synonym outcome = "(panic \<times> Request) + ResponseWriter"

definition invoke :: "ResponseWriter \<Rightarrow> Request \<Rightarrow> HandlerFunc \<Rightarrow> MiddlewareType list \<Rightarrow> outcome" where
  "invoke w r handler mws =
     (case handle w r handler mws of
        Inl msg \<Rightarrow> Inl (HandlerPanic msg, r)
      | Inr w' \<Rightarrow> Inr w')"

text \<open>
  The loop of lines 176 to 188 over the candidates: \<open>None\<close> when the loop ends
  without a return.
\<close>

fun tryCandidates :: "'re regexp_pkg \<Rightarrow> ResponseWriter \<Rightarrow> Request \<Rightarrow> Node list \<Rightarrow> outcome option" where
  "tryCandidates E w r [] = None"
| "tryCandidates E w r (node # rest) =
     (case node_handle node of
        None \<Rightarrow> tryCandidates E w r rest
      | Some handler \<Rightarrow>
          if node_path node = URL_Path r then tryCandidates E w r rest
          else
            (case matchAndParse E (URL_Path r) (node_path node) of
               Inl e \<Rightarrow> Some (Inl (e, r))
             | Inr None \<Rightarrow> tryCandidates E w r rest
             | Inr (Some matchParamsMap) \<Rightarrow>
                 Some (invoke w (r\<lparr>ctxParams := Some matchParamsMap\<rparr>) handler
                         (node_middleware node))))"

text \<open>
  Lines 154 to 168, the exact match on the first node found: \<open>None\<close> when no return
  is reached. Line 163 slices \<open>requestUrl[1:]\<close>, which faults on the empty path.
\<close>

definition tryExact :: "ResponseWriter \<Rightarrow> Request \<Rightarrow> Node list \<Rightarrow> outcome option" where
  "tryExact w r nodes =
     (case nodes of
        [] \<Rightarrow> None
      | node # others \<Rightarrow>
          (case node_handle node of
             None \<Rightarrow> None
           | Some h \<Rightarrow>
               if node_path node = URL_Path r then Some (invoke w r h (node_middleware node))
               else if URL_Path r = [] then Some (Inl (SliceBoundsOutOfRange 163, r))
               else if node_path node = drop 1 (URL_Path r)
                 then Some (invoke w r h (node_middleware node))
               else None))"

text \<open>Lines 170 to 189: the lookup by the first segment, \<open>res[1]\<close> of the split path.\<close>

definition tryPrefix :: "'re regexp_pkg \<Rightarrow> Tree \<Rightarrow> ResponseWriter \<Rightarrow> Request \<Rightarrow> outcome option" where
  "tryPrefix E t w r =
     (let res = Split (URL_Path r) (CHR ''/'')
      in if length res < 2 then Some (Inl (IndexOutOfRange 172, r))
         else tryCandidates E w r (Find t (res ! 1) 1))"

definition serve :: "'re regexp_pkg \<Rightarrow> Router \<Rightarrow> ResponseWriter \<Rightarrow> Request \<Rightarrow> outcome" where
  "serve E router w r =
     (case trees router (Method r) of
        None \<Rightarrow> Inl (MethodNotRegistered, r)
      | Some t \<Rightarrow>
          (let nodes = Find t (URL_Path r) 0
           in case tryExact w r nodes of
                Some out \<Rightarrow> out
              | None \<Rightarrow>
                  (case (if nodes = [] then tryPrefix E t w r else None) of
                     Some out \<Rightarrow> out
                   | None \<Rightarrow>
                       (case HandleNotFound router w r (middleware router) of
                          Inl msg \<Rightarrow> Inl (HandlerPanic msg, r)
                        | Inr w' \<Rightarrow> Inr w'))))"

text \<open>
  \<open>ServeHTTP\<close>: the body, under the deferred recovery of lines 140 to 146. With a
  \<open>PanicHandler\<close> a panic is recovered and handed to it; without one it leaves the
  call (\<open>Inl\<close>).
\<close>

definition ServeHTTP :: "'re regexp_pkg \<Rightarrow> Router \<Rightarrow> ResponseWriter \<Rightarrow> Request
    \<Rightarrow> panic + ResponseWriter" where
  "ServeHTTP E router w r =
     (case serve E router w r of
        Inr w' \<Rightarrow> Inr w'
      | Inl (e, r') \<Rightarrow>
          (case PanicHandler router of
             None \<Rightarrow> Inl e
           | Some ph \<Rightarrow> Inr (ph w r' e)))"

text \<open>
  A setup phase: calls on one router and registrations through its groups, in order.
  \<open>CallGroupHandle g\<close> is a call of \<open>Handle\<close> on a group \<open>g\<close> of the router, which has
  its own prefix and middleware and works on the map of trees it shares with the router.
  \<open>run_setup\<close> is the router the calls leave, where the caller recovers from a call that
  panics and goes on. \<open>call_method\<close> is the method a registration names, \<open>call_route\<close>
  the method and the full path it registers.
\<close>

datatype setup_call =
    CallHandle string string HandlerFunc
  | CallGroupHandle Router string string HandlerFunc
  | CallUse "MiddlewareType list"
  | CallNotFoundFunc HandlerFunc
  | SetPanicHandler "ResponseWriter \<Rightarrow> Request \<Rightarrow> panic \<Rightarrow> ResponseWriter"

fun setup_step :: "Router \<Rightarrow> setup_call \<Rightarrow> panic option \<times> Router" where
  "setup_step router (CallHandle meth p h) = Handle router meth p h"
| "setup_step router (CallGroupHandle g meth p h) =
     (fst (Handle (g\<lparr>trees := trees router\<rparr>) meth p h),
      router\<lparr>trees := trees (snd (Handle (g\<lparr>trees := trees router\<rparr>) meth p h))\<rparr>)"
| "setup_step router (CallUse mws) = (None, Use router mws)"
| "setup_step router (CallNotFoundFunc h) = (None, NotFoundFunc router h)"
| "setup_step router (SetPanicHandler ph) = (None, router\<lparr>PanicHandler := Some ph\<rparr>)"

fun run_setup :: "Router \<Rightarrow> setup_call list \<Rightarrow> Router" where
  "run_setup router [] = router"
| "run_setup router (c # cs) = run_setup (snd (setup_step router c)) cs"

fun call_method :: "setup_call \<Rightarrow> string option" where
  "call_method (CallHandle meth p h) = Some meth"
| "call_method (CallGroupHandle g meth p h) = Some meth"
| "call_method c = None"

fun call_route :: "Router \<Rightarrow> setup_call \<Rightarrow> (string \<times> string) option" where
  "call_route router (CallHandle meth p h) = Some (meth, fullPath router p)"
| "call_route router (CallGroupHandle g meth p h) = Some (meth, fullPath g p)"
| "call_route router c = None"

subsection \<open>Routes made of plain segments and named parameters\<close>

text \<open>
  A reference reading of a route whose segments are static text without pattern
  syntax, or \<open>:name\<close> parameters. \<open>is_literal\<close> holds of the bytes that stand for
  themselves in a pattern. \<open>walk\<close> reads a request path against such a route from left
  to right: a static segment must be there byte for byte, a parameter takes the longest
  run of bytes of its class, which must not be empty. It returns the input left over
  and the values of the parameters.
\<close>

definition is_literal :: "char \<Rightarrow> bool" where
  "is_literal c = (c \<notin> set (bslash # ''.+*?()|[]{}^$''))"

datatype seg = Static string | Param string

fun seg_text :: "seg \<Rightarrow> string" where
  "seg_text (Static l) = l"
| "seg_text (Param n) = CHR '':'' # n"

definition route_path :: "seg list \<Rightarrow> string" where
  "route_path segs = concat (map (\<lambda>s. CHR ''/'' # seg_text s) segs)"

fun wf_seg :: "seg \<Rightarrow> bool" where
  "wf_seg (Static l) =
     (l \<noteq> [] \<and> hd l \<noteq> CHR '':'' \<and> list_all is_literal l \<and> CHR ''/'' \<notin> set l)"
| "wf_seg (Param n) = (CHR '':'' \<notin> set n \<and> CHR ''/'' \<notin> set n)"

fun param_names :: "seg list \<Rightarrow> string list" where
  "param_names [] = []"
| "param_names (Static l # segs) = param_names segs"
| "param_names (Param n # segs) = n # param_names segs"

definition param_class :: "string \<Rightarrow> (char \<times> char) list" where
  "param_class n = (if n = idKey then digit_ranges else word_ranges)"

fun walk :: "seg list \<Rightarrow> string \<Rightarrow> (string \<times> string list) option" where
  "walk [] s = Some (s, [])"
| "walk (Static l # segs) s =
     (if take (Suc (length l)) s = CHR ''/'' # l then walk segs (drop (Suc (length l)) s) else None)"
| "walk (Param n # segs) s =
     (case s of
        [] \<Rightarrow> None
      | x # t \<Rightarrow>
          if x = CHR ''/'' \<and> takeWhile (\<lambda>b. in_ranges b (param_class n)) t \<noteq> [] then
            map_option (\<lambda>(rest, vs). (rest, takeWhile (\<lambda>b. in_ranges b (param_class n)) t # vs))
              (walk segs (dropWhile (\<lambda>b. in_ranges b (param_class n)) t))
          else None)"

text \<open>
  What the segment loop, the lexer and the parser make of such a route: the pattern
  text, its tokens, and the items of the concatenation the parser builds, where the
  groups count on from \<open>k\<close>. \<open>set_caps\<close> stores a list of values under the group
  numbers after \<open>k\<close>.
\<close>

definition group_text :: "string \<Rightarrow> string" where
  "group_text n = ''('' @ (if n = idKey then idPattern else defaultPattern) @ '')''"

fun pattern_text :: "seg list \<Rightarrow> string" where
  "pattern_text [] = []"
| "pattern_text (Static l # segs) = CHR ''/'' # l @ pattern_text segs"
| "pattern_text (Param n # segs) = CHR ''/'' # group_text n @ pattern_text segs"

fun route_tokens :: "seg list \<Rightarrow> token list" where
  "route_tokens [] = []"
| "route_tokens (Static l # segs) = TChr (CHR ''/'') # map TChr l @ route_tokens segs"
| "route_tokens (Param n # segs) =
     TChr (CHR ''/'') # TLpar # TCls False (param_class n) # TPlus # TRpar # route_tokens segs"

definition class_plus :: "(char \<times> char) list \<Rightarrow> regex" where
  "class_plus rs = Seq (Seq (Cls False rs) (Star (Cls False rs))) Eps"

fun route_atoms :: "nat \<Rightarrow> seg list \<Rightarrow> regex list" where
  "route_atoms k [] = []"
| "route_atoms k (Static l # segs) = Chr (CHR ''/'') # map Chr l @ route_atoms k segs"
| "route_atoms k (Param n # segs) =
     Chr (CHR ''/'') # Grp (Suc k) (class_plus (param_class n)) # route_atoms (Suc k) segs"

fun set_caps :: "nat \<Rightarrow> string list \<Rightarrow> caps \<Rightarrow> caps" where
  "set_caps k [] c = c"
| "set_caps k (v # vs) c = set_caps (Suc k) vs (c(Suc k \<mapsto> v))"

text \<open>
  The segments of the request path that \<open>walk\<close> accepts for the values it returns:
  a static segment stands for itself, a parameter for its value.
\<close>

fun fill :: "seg list \<Rightarrow> string list \<Rightarrow> string list" where
  "fill [] vs = []"
| "fill (Static l # segs) vs = l # fill segs vs"
| "fill (Param n # segs) [] = []"
| "fill (Param n # segs) (v # vs) = v # fill segs vs"

text \<open>
  The specification's reading of a segment, to be compared with \<open>matchAndParse\<close>: a
  static segment stands for the identical text, a parameter \<open>:name\<close> for a non-empty
  run of word bytes \<open>[0-9A-Za-z_]\<close>, of digits when the name is \<open>id\<close>. \<open>param_values\<close>
  picks, from the segments of a request path, those at the places of the parameters.
\<close>

fun segment_matches :: "seg \<Rightarrow> string \<Rightarrow> bool" where
  "segment_matches (Static l) v = (v = l)"
| "segment_matches (Param n) v =
     (v \<noteq> [] \<and> list_all (\<lambda>b. in_ranges b (if n = ''id'' then digit_ranges else word_ranges)) v)"

fun param_values :: "seg list \<Rightarrow> string list \<Rightarrow> string list" where
  "param_values [] vals = []"
| "param_values (sg # segs) [] = []"
| "param_values (Static l # segs) (v # vals) = param_values segs vals"
| "param_values (Param n # segs) (v # vals) = v # param_values segs vals"

text \<open>The map that binding the names to the values in order leaves.\<close>

definition bound :: "string list \<Rightarrow> string list \<Rightarrow> paramsMapType" where
  "bound names vs = foldl (\<lambda>m (n, v). m(n \<mapsto> v)) Map.empty (zip names vs)"




text \<open>
  Observers for the order of a chain: a middleware that writes its name when it is
  entered and then calls the handler it wraps, and a handler that writes its name.
\<close>

definition logging :: "string \<Rightarrow> MiddlewareType" where
  "logging name next w r = next (w\<lparr>written := written w @ name\<rparr>) r"

definition terminal :: "string \<Rightarrow> HandlerFunc" where
  "terminal name w r = Inr (w\<lparr>written := written w @ name\<rparr>)"

section \<open>Properties\<close>

subsection \<open>Splitting\<close>

lemma Split_nonempty: "Split s sep \<noteq> []"
  by (induction s) (auto split: list.splits)

lemma Split_no_sep: "sep \<notin> set a \<Longrightarrow> Split a sep = [a]"
  by (induction a) auto

lemma Split_append_sep: "Split (a @ sep # b) sep = Split a sep @ Split b sep"
proof (induction a)
  case Nil
  show ?case by simp
next
  case (Cons x a)
  show ?case
  proof (cases "x = sep")
    case True
    with Cons show ?thesis by simp
  next
    case False
    obtain y ys where "Split a sep = y # ys"
      using Split_nonempty [of a sep] by (cases "Split a sep") auto
    with False Cons show ?thesis by simp
  qed
qed

lemma Split_segment_in_path:
  assumes "CHR ''/'' \<notin> set seg" "post = [] \<or> hd post = CHR ''/''"
  shows "Split (pre @ ''/'' @ seg @ post) (CHR ''/'') =
           Split pre (CHR ''/'') @ seg # tl (Split post (CHR ''/''))"
proof (cases post)
  case Nil
  with assms show ?thesis by (simp add: Split_append_sep Split_no_sep)
next
  case (Cons x post')
  with assms have "x = CHR ''/''" by simp
  with Cons assms show ?thesis
    using Split_append_sep [of seg "CHR ''/''" post']
    by (simp add: Split_append_sep Split_no_sep)
qed

lemma Split_length: "length (Split s sep) = Suc (count_list s sep)"
proof (induction s)
  case Nil
  show ?case by simp
next
  case (Cons x s)
  obtain y ys where "Split s sep = y # ys"
    using Split_nonempty [of s sep] by (cases "Split s sep") auto
  with Cons show ?case by simp
qed

subsection \<open>The segment loop\<close>

lemma compileSegments_append:
  "compileSegments (A @ B) m s =
     (case compileSegments A m s of Inl e \<Rightarrow> Inl e | Inr (m', s') \<Rightarrow> compileSegments B m' s')"
  by (induction A m s rule: compileSegments.induct) (simp_all add: Let_def)

lemma braced_inner: "drop 1 (take (length (c # m @ [d]) - 1) (c # m @ [d])) = m"
  by simp

lemma compile_braced:
  assumes "CHR '':'' \<notin> set n" "CHR '':'' \<notin> set f"
  shows "compileSegments ((''{'' @ n @ '':'' @ f @ '':'' @ r @ ''}'') # B) m s
       = compileSegments B (m @ [n]) (s @ ''/'' @ ''('' @ f @ '')'')"
    and "compileSegments ((''{'' @ n @ '':'' @ f @ ''}'') # B) m s
       = compileSegments B (m @ [n]) (s @ ''/'' @ ''('' @ f @ '')'')"
proof -
  have a: "Split (n @ '':'' @ f @ '':'' @ r) (CHR '':'') = n # f # Split r (CHR '':'')"
    using assms by (simp add: Split_append_sep Split_no_sep)
  have b: "Split (n @ '':'' @ f) (CHR '':'') = [n, f]"
    using assms by (simp add: Split_append_sep Split_no_sep)
  have i1: "drop 1 (take (length (''{'' @ n @ '':'' @ f @ '':'' @ r @ ''}'') - 1)
                (''{'' @ n @ '':'' @ f @ '':'' @ r @ ''}''))
     = n @ '':'' @ f @ '':'' @ r"
    using braced_inner [of "CHR ''{''" "n @ '':'' @ f @ '':'' @ r" "CHR ''}''"] by simp
  have i2: "drop 1 (take (length (''{'' @ n @ '':'' @ f @ ''}'') - 1) (''{'' @ n @ '':'' @ f @ ''}''))
     = n @ '':'' @ f"
    using braced_inner [of "CHR ''{''" "n @ '':'' @ f" "CHR ''}''"] by simp
  show "compileSegments ((''{'' @ n @ '':'' @ f @ '':'' @ r @ ''}'') # B) m s
       = compileSegments B (m @ [n]) (s @ ''/'' @ ''('' @ f @ '')'')"
    using i1 a by (simp add: Let_def)
  show "compileSegments ((''{'' @ n @ '':'' @ f @ ''}'') # B) m s
       = compileSegments B (m @ [n]) (s @ ''/'' @ ''('' @ f @ '')'')"
    using i2 b by (simp add: Let_def)
qed

subsection \<open>A second colon in a braced segment\<close>

text \<open>
  Claim C10. A braced segment \<open>{name:fragment}\<close> whose fragment holds a further \<open>:\<close>
  is compiled from the text between the first and the second colon only: wherever the
  segment \<open>{n:f:r}\<close> stands in a path, the loop goes on from it with the name \<open>n\<close>
  added to the names and the group \<open>(f)\<close> added to the pattern text, and what follows
  the second colon is dropped without a fault. So the path compiles to the same names
  and the same pattern text as with the segment \<open>{n:f}\<close>, and \<open>matchAndParse\<close> gives
  the same result on every request, whatever the regexp package does.
\<close>

theorem second_colon_dropped:
  assumes "CHR '':'' \<notin> set n" "CHR '':'' \<notin> set f"
    and "CHR ''/'' \<notin> set n" "CHR ''/'' \<notin> set f" "CHR ''/'' \<notin> set r"
    and "post = [] \<or> hd post = CHR ''/''"
  shows "compilePath (pre @ ''/'' @ ''{'' @ n @ '':'' @ f @ '':'' @ r @ ''}'' @ post)
           = (case compileSegments (Split pre (CHR ''/'')) [] [] of
                Inl e \<Rightarrow> Inl e
              | Inr (names, pattern) \<Rightarrow>
                  compileSegments (tl (Split post (CHR ''/''))) (names @ [n])
                    (pattern @ ''/'' @ ''('' @ f @ '')''))
       \<and> compilePath (pre @ ''/'' @ ''{'' @ n @ '':'' @ f @ '':'' @ r @ ''}'' @ post)
           = compilePath (pre @ ''/'' @ ''{'' @ n @ '':'' @ f @ ''}'' @ post)
       \<and> matchAndParse E requestUrl (pre @ ''/'' @ ''{'' @ n @ '':'' @ f @ '':'' @ r @ ''}'' @ post)
           = matchAndParse E requestUrl (pre @ ''/'' @ ''{'' @ n @ '':'' @ f @ ''}'' @ post)"
proof -
  let ?s1 = "''{'' @ n @ '':'' @ f @ '':'' @ r @ ''}''"
  let ?s2 = "''{'' @ n @ '':'' @ f @ ''}''"
  have n1: "CHR ''/'' \<notin> set ?s1" and n2: "CHR ''/'' \<notin> set ?s2"
    using assms by auto
  have p1: "Split (pre @ ''/'' @ ?s1 @ post) (CHR ''/'') =
           Split pre (CHR ''/'') @ ?s1 # tl (Split post (CHR ''/''))"
    using Split_segment_in_path [OF n1 assms(6)] .
  have p2: "Split (pre @ ''/'' @ ?s2 @ post) (CHR ''/'') =
           Split pre (CHR ''/'') @ ?s2 # tl (Split post (CHR ''/''))"
    using Split_segment_in_path [OF n2 assms(6)] .
  have e1: "compilePath (pre @ ''/'' @ ?s1 @ post)
           = (case compileSegments (Split pre (CHR ''/'')) [] [] of
                Inl e \<Rightarrow> Inl e
              | Inr (names, pattern) \<Rightarrow>
                  compileSegments (tl (Split post (CHR ''/''))) (names @ [n])
                    (pattern @ ''/'' @ ''('' @ f @ '')''))"
    unfolding compilePath_def p1 compileSegments_append
    using compile_braced(1) [OF assms(1,2)] by (simp split: sum.splits)
  have e2: "compilePath (pre @ ''/'' @ ?s2 @ post)
           = (case compileSegments (Split pre (CHR ''/'')) [] [] of
                Inl e \<Rightarrow> Inl e
              | Inr (names, pattern) \<Rightarrow>
                  compileSegments (tl (Split post (CHR ''/''))) (names @ [n])
                    (pattern @ ''/'' @ ''('' @ f @ '')''))"
    unfolding compilePath_def p2 compileSegments_append
    using compile_braced(2) [OF assms(1,2)] by (simp split: sum.splits)
  have c: "compilePath (pre @ ''/'' @ ?s1 @ post) = compilePath (pre @ ''/'' @ ?s2 @ post)"
    using e1 e2 by simp
  have "matchAndParse E requestUrl (pre @ ''/'' @ ?s1 @ post)
           = matchAndParse E requestUrl (pre @ ''/'' @ ?s2 @ post)"
    unfolding matchAndParse_def c ..
  with e1 c show ?thesis by simp
qed

theorem second_colon_dropped_witness:
  "compilePath ''/items/{code:[A-Z]+:[0-9]+}/z'' = Inr ([''code''], ''/items/([A-Z]+)/z'')
   \<and> compilePath ''/items/{code:[A-Z]+:[0-9]+}/z'' = compilePath ''/items/{code:[A-Z]+}/z''
   \<and> matchAndParse reference_pkg ''/items/AB/z'' ''/items/{code:[A-Z]+:[0-9]+}/z''
       = matchAndParse reference_pkg ''/items/AB/z'' ''/items/{code:[A-Z]+}/z''"
  using second_colon_dropped [of "''code''" "''[A-Z]+''" "''[0-9]+''" "''/z''" "''/items''"
      reference_pkg "''/items/AB/z''"]
  by (simp add: compilePath_def)

subsection \<open>The matcher\<close>

declare backtrack.simps(7) [simp del]

lemma backtrack_suffix: "(rest, c') \<in> set (backtrack r s c) \<Longrightarrow> \<exists>p. s = p @ rest"
proof (induction r s c arbitrary: rest c' rule: backtrack.induct)
  case (1 s c)
  then show ?case by simp
next
  case (2 a s c)
  then show ?case by (cases s) (auto split: if_splits)
next
  case (3 s c)
  then show ?case by (cases s) (auto split: if_splits)
next
  case (4 neg rs s c)
  then show ?case by (cases s) (auto split: if_splits)
next
  case (5 r1 r2 s c)
  from 5(3) obtain s1 c1 where a: "(s1, c1) \<in> set (backtrack r1 s c)"
    and b: "(rest, c') \<in> set (backtrack r2 s1 c1)" by auto
  from 5(1) [OF a] obtain p where p: "s = p @ s1" by blast
  from 5(2) [OF a refl b] obtain q where "s1 = q @ rest" by blast
  with p show ?case by auto
next
  case (6 r1 r2 s c)
  then show ?case by auto
next
  case (7 r s c)
  show ?case
  proof (cases "(rest, c') = (s, c)")
    case True
    then show ?thesis by simp
  next
    case False
    have "set (backtrack (Star r) s c) =
            (\<Union>(s', c') \<in> set (backtrack r s c).
               if length s' < length s then set (backtrack (Star r) s' c') else {}) \<union> {(s, c)}"
      by (subst backtrack.simps(7)) (auto simp del: backtrack.simps split: if_splits)
    with 7(3) False obtain s1 c1 where a: "(s1, c1) \<in> set (backtrack r s c)"
      and l: "length s1 < length s"
      and b: "(rest, c') \<in> set (backtrack (Star r) s1 c1)"
      by (auto simp del: backtrack.simps split: if_splits)
    from 7(1) [OF a] obtain p where p: "s = p @ s1" by blast
    from 7(2) [OF a refl l b] obtain q where "s1 = q @ rest" by blast
    with p show ?thesis by auto
  qed
next
  case (8 i r s c)
  then show ?case by auto
qed

lemma backtrack_length: "(rest, c') \<in> set (backtrack r s c) \<Longrightarrow> length rest \<le> length s"
  using backtrack_suffix [of rest c' r s c] by auto

lemma find_leftmost_first:
  assumes "backtrack r s Map.empty = (rest, c) # tail"
  shows "find_leftmost r s = Some (take (length s - length rest) s, c)"
proof (cases s)
  case Nil
  with assms have b: "backtrack r [] Map.empty = (rest, c) # tail" by simp
  have "find_leftmost r [] = Some ([], c)" by (simp only: find_leftmost.simps b list.case prod.case)
  with Nil show ?thesis by simp
next
  case (Cons x xs)
  with assms have b: "backtrack r (x # xs) Map.empty = (rest, c) # tail" by simp
  have "find_leftmost r (x # xs) = Some (take (length (x # xs) - length rest) (x # xs), c)"
    by (simp only: find_leftmost.simps b list.case prod.case)
  with Cons show ?thesis by simp
qed

lemma find_leftmost_Nil:
  "backtrack r s Map.empty = [] \<Longrightarrow> find_leftmost r s = (case s of [] \<Rightarrow> None | x # xs \<Rightarrow> find_leftmost r xs)"
  by (cases s) (simp_all only: find_leftmost.simps list.case)

lemma find_leftmost_length: "find_leftmost r t = Some (m, c) \<Longrightarrow> length m \<le> length t"
proof (induction t)
  case Nil
  show ?case
  proof (cases "backtrack r [] Map.empty")
    case Nil
    with find_leftmost_Nil [OF this] Nil.prems show ?thesis by simp
  next
    case (Cons a tail)
    obtain rest c1 where "a = (rest, c1)" by (cases a)
    with Cons find_leftmost_first [of r "[]" rest c1 tail] Nil.prems show ?thesis by simp
  qed
next
  case (Cons y ys)
  show ?case
  proof (cases "backtrack r (y # ys) Map.empty")
    case Nil
    from find_leftmost_Nil [OF this] Cons.prems have "find_leftmost r ys = Some (m, c)" by simp
    from Cons.IH [OF this] show ?thesis by simp
  next
    case (Cons a tail)
    obtain rest c1 where "a = (rest, c1)" by (cases a)
    with Cons find_leftmost_first [of r "y # ys" rest c1 tail] Cons.prems
    have "m = take (length (y # ys) - length rest) (y # ys)" by simp
    then show ?thesis by simp
  qed
qed

lemma find_leftmost_whole:
  assumes "find_leftmost r s = Some (s, c)"
  shows "\<exists>tail. backtrack r s Map.empty = ([], c) # tail"
proof (cases "backtrack r s Map.empty")
  case Nil
  show ?thesis
  proof (cases s)
    case Nil
    with find_leftmost_Nil [OF \<open>backtrack r s Map.empty = []\<close>] assms show ?thesis by simp
  next
    case (Cons x xs)
    with find_leftmost_Nil [OF Nil] assms have "find_leftmost r xs = Some (x # xs, c)" by simp
    from find_leftmost_length [OF this] show ?thesis by simp
  qed
next
  case (Cons a tail)
  obtain rest c1 where a: "a = (rest, c1)" by (cases a)
  with Cons have b: "backtrack r s Map.empty = (rest, c1) # tail" by simp
  then have "(rest, c1) \<in> set (backtrack r s Map.empty)" by simp
  from backtrack_length [OF this] have le: "length rest \<le> length s" .
  from find_leftmost_first [OF b] assms
  have t: "take (length s - length rest) s = s" and c: "c1 = c" by simp_all
  have "length (take (length s - length rest) s) = length s" using t by simp
  then have "length s \<le> length s - length rest" by simp
  with le have "length rest = 0 \<or> length s = 0" by arith
  with le have "rest = []" by auto
  with b c show ?thesis by simp
qed

subsection \<open>Routes of plain segments and named parameters\<close>

text \<open>
  For such a route the segment loop, the lexer, the parser and the matcher are followed
  step by step; the result is that \<open>matchAndParse\<close> succeeds exactly when \<open>walk\<close>
  consumes the whole request path, and then binds the names to the values \<open>walk\<close> read.
\<close>

lemma Split_route_path:
  assumes "\<forall>s\<in>set segs. CHR ''/'' \<notin> set (seg_text s)"
  shows "Split (route_path segs) (CHR ''/'') = [] # map seg_text segs"
  using assms
proof (induction segs)
  case Nil
  show ?case by (simp add: route_path_def)
next
  case (Cons s segs)
  have n: "CHR ''/'' \<notin> set (seg_text s)" using Cons.prems by simp
  have ih: "Split (route_path segs) (CHR ''/'') = [] # map seg_text segs"
    using Cons by simp
  show ?case
  proof (cases segs)
    case Nil
    with n show ?thesis by (simp add: route_path_def Split_no_sep)
  next
    case (Cons s2 segs')
    then obtain X where X: "route_path segs = CHR ''/'' # X" by (simp add: route_path_def)
    with ih have "Split X (CHR ''/'') = map seg_text segs" by simp
    moreover have "route_path (s # segs) = CHR ''/'' # seg_text s @ CHR ''/'' # X"
      using X by (simp add: route_path_def)
    ultimately show ?thesis using n by (simp add: Split_append_sep Split_no_sep)
  qed
qed

lemma wf_seg_no_slash: "wf_seg s \<Longrightarrow> CHR ''/'' \<notin> set (seg_text s)"
  by (cases s) auto

lemma compileSegments_segs:
  assumes "\<forall>s\<in>set segs. wf_seg s"
  shows "compileSegments (map seg_text segs) m t = Inr (m @ param_names segs, t @ pattern_text segs)"
  using assms
proof (induction segs arbitrary: m t)
  case Nil
  show ?case by simp
next
  case (Cons s segs)
  show ?case
  proof (cases s)
    case (Static l)
    with Cons.prems have l: "l \<noteq> []" "hd l \<noteq> CHR '':''" "is_literal (hd l)"
      by (auto simp: list_all_iff)
    then have "hd l \<noteq> CHR ''{''" by (auto simp: is_literal_def)
    with l Static Cons show ?thesis by simp
  next
    case (Param n)
    with Cons.prems have "CHR '':'' \<notin> set n" by simp
    then have "Split (CHR '':'' # n) (CHR '':'') = [[], n]" by (simp add: Split_no_sep)
    with Param Cons show ?thesis by (simp add: group_text_def Let_def)
  qed
qed

lemma compilePath_route:
  assumes "\<forall>s\<in>set segs. wf_seg s"
  shows "compilePath (route_path segs) = Inr (param_names segs, pattern_text segs)"
proof -
  have "Split (route_path segs) (CHR ''/'') = [] # map seg_text segs"
    using assms by (intro Split_route_path) (auto dest: wf_seg_no_slash)
  then show ?thesis using compileSegments_segs [OF assms, of "[]" "[]"]
    by (simp add: compilePath_def)
qed


lemma lex_literal: "is_literal c \<Longrightarrow> lex (c # cs) = map_option ((#) (TChr c)) (lex cs)"
  by (simp add: is_literal_def)

lemma lex_literals:
  "list_all is_literal l \<Longrightarrow> lex (l @ rest) = map_option ((@) (map TChr l)) (lex rest)"
proof (induction l)
  case Nil
  show ?case by (simp add: option.map_ident)
next
  case (Cons c l)
  then show ?case by (simp add: lex_literal option.map_comp comp_def del: lex.simps)
qed

lemma lex_slash: "lex (CHR ''/'' # cs) = map_option ((#) (TChr (CHR ''/''))) (lex cs)"
  by (simp add: bslash_def)

lemma ranges_nonempty: "digit_ranges \<noteq> []" "word_ranges \<noteq> []"
  by (simp_all add: digit_ranges_def word_ranges_def)

lemma lex_group:
  "lex (group_text n @ rest) =
     map_option (\<lambda>ts. TLpar # TCls False (param_class n) # TPlus # TRpar # ts) (lex rest)"
  by (simp add: group_text_def idPattern_def defaultPattern_def bslash_def class_escape_def
        param_class_def option.map_comp comp_def ranges_nonempty)

lemma lex_pattern_text:
  assumes "\<forall>s\<in>set segs. wf_seg s"
  shows "lex (pattern_text segs) = Some (route_tokens segs)"
  using assms
proof (induction segs)
  case Nil
  show ?case by simp
next
  case (Cons s segs)
  then have ih: "lex (pattern_text segs) = Some (route_tokens segs)" by simp
  show ?case
  proof (cases s)
    case (Static l)
    with Cons.prems have "list_all is_literal l" by simp
    from lex_literals [OF this, of "pattern_text segs"] ih Static
    show ?thesis by (simp add: lex_slash del: lex.simps)
  next
    case (Param n)
    from lex_group [of n "pattern_text segs"] ih Param
    show ?thesis by (simp add: lex_slash del: lex.simps)
  qed
qed

lemma parse_chars:
  "parse (map TChr l @ ts) k (alts, cur) st = parse ts k (alts, rev (map Chr l) @ cur) st"
  by (induction l arbitrary: cur) simp_all

lemma parse_group:
  "parse (TLpar # TCls False rs # TPlus # TRpar # ts) k (alts, cur) st
     = parse ts (Suc k) (alts, Grp (Suc k) (class_plus rs) # cur) st"
  by (simp add: is_rep_def repeat_def finish_def mkseq_def class_plus_def)

lemma parse_route_tokens:
  "parse (route_tokens segs @ ts) k (alts, cur) st
     = parse ts (k + length (param_names segs)) (alts, rev (route_atoms k segs) @ cur) st"
proof (induction segs arbitrary: k cur)
  case Nil
  show ?case by simp
next
  case (Cons s segs)
  show ?case
  proof (cases s)
    case (Static l)
    have "parse (route_tokens (s # segs) @ ts) k (alts, cur) st
        = parse (map TChr l @ (route_tokens segs @ ts)) k (alts, Chr (CHR ''/'') # cur) st"
      using Static by simp
    also have "\<dots> = parse (route_tokens segs @ ts) k (alts, rev (map Chr l) @ Chr (CHR ''/'') # cur) st"
      by (rule parse_chars)
    finally show ?thesis using Static Cons [of k "rev (map Chr l) @ Chr (CHR ''/'') # cur"] by simp
  next
    case (Param n)
    have "parse (route_tokens (s # segs) @ ts) k (alts, cur) st
        = parse (TLpar # TCls False (param_class n) # TPlus # TRpar # (route_tokens segs @ ts)) k
            (alts, Chr (CHR ''/'') # cur) st"
      using Param by simp
    also have "\<dots> = parse (route_tokens segs @ ts) (Suc k)
            (alts, Grp (Suc k) (class_plus (param_class n)) # Chr (CHR ''/'') # cur) st"
      by (rule parse_group)
    finally show ?thesis using Param
        Cons [of "Suc k" "Grp (Suc k) (class_plus (param_class n)) # Chr (CHR ''/'') # cur"] by simp
  qed
qed

lemma fragment_compile_route:
  assumes "\<forall>s\<in>set segs. wf_seg s"
  shows "fragment_compile (pattern_text segs)
           = Some (foldr Seq (route_atoms 0 segs) Eps, length (param_names segs))"
  using lex_pattern_text [OF assms] parse_route_tokens [of segs "[]" 0 "[]" "[]" "[]"]
  by (simp add: fragment_compile_def finish_def mkseq_def)

lemma rev_upt_Suc_Suc: "rev [0..<Suc (Suc n)] = map Suc (rev [0..<Suc n]) @ [0]"
proof -
  have "[0..<Suc (Suc n)] = 0 # map Suc [0..<Suc n]"
    by (simp only: map_Suc_upt upt_conv_Cons [of 0 "Suc (Suc n)"] zero_less_Suc)
  then show ?thesis by (simp only: rev.simps rev_map)
qed

lemma star_class:
  "backtrack (Star (Cls False rs)) s c
     = map (\<lambda>j. (drop j s, c)) (rev [0..<Suc (length (takeWhile (\<lambda>b. in_ranges b rs) s))])"
proof (induction s)
  case Nil
  show ?case by (simp add: backtrack.simps(7))
next
  case (Cons x xs)
  show ?case
  proof (cases "in_ranges x rs")
    case False
    then show ?thesis by (simp add: backtrack.simps(7))
  next
    case True
    let ?k = "length (takeWhile (\<lambda>b. in_ranges b rs) xs)"
    have "backtrack (Star (Cls False rs)) (x # xs) c
        = backtrack (Star (Cls False rs)) xs c @ [(x # xs, c)]"
      using True by (simp add: backtrack.simps(7) [of _ "x # xs"])
    also have "\<dots> = map (\<lambda>j. (drop j xs, c)) (rev [0..<Suc ?k]) @ [(x # xs, c)]"
      by (simp only: Cons)
    also have "\<dots> = map (\<lambda>j. (drop j (x # xs), c)) (map Suc (rev [0..<Suc ?k]) @ [0])"
      by (simp add: comp_def)
    also have "\<dots> = map (\<lambda>j. (drop j (x # xs), c)) (rev [0..<Suc (Suc ?k)])"
      by (simp only: rev_upt_Suc_Suc)
    finally show ?thesis using True by simp
  qed
qed

lemma concat_singletons: "concat (map (\<lambda>(a, b). [(a, b)]) xs) = xs"
  by (induction xs) auto

lemma concat_eps: "concat (map (\<lambda>(a, b). backtrack Eps a b) xs) = xs"
  by (induction xs) auto

lemma seq_eps: "backtrack (Seq r Eps) s c = backtrack r s c"
  by (simp only: backtrack.simps(5) concat_eps)

lemma group_class:
  "backtrack (Grp i (class_plus rs)) s c
     = map (\<lambda>j. (drop j s, c(i \<mapsto> take j s)))
         (rev [1..<Suc (length (takeWhile (\<lambda>b. in_ranges b rs) s))])"
proof (cases s)
  case Nil
  then show ?thesis unfolding class_plus_def seq_eps by simp
next
  case (Cons x xs)
  show ?thesis
  proof (cases "in_ranges x rs")
    case False
    with Cons show ?thesis unfolding class_plus_def seq_eps by simp
  next
    case True
    let ?k = "length (takeWhile (\<lambda>b. in_ranges b rs) xs)"
    have k: "?k \<le> length xs" by (rule length_takeWhile_le)
    have "backtrack (class_plus rs) s c = map (\<lambda>j. (drop j xs, c)) (rev [0..<Suc ?k])"
      unfolding class_plus_def seq_eps using True Cons by (simp add: star_class del: upt_Suc)
    then have "backtrack (Grp i (class_plus rs)) s c
        = map (\<lambda>j. (drop j xs, c(i \<mapsto> take (length s - length (drop j xs)) s))) (rev [0..<Suc ?k])"
      by (simp add: comp_def del: upt_Suc)
    also have "\<dots> = map (\<lambda>j. (drop (Suc j) s, c(i \<mapsto> take (Suc j) s))) (rev [0..<Suc ?k])"
    proof (rule map_cong [OF refl])
      fix j assume "j \<in> set (rev [0..<Suc ?k])"
      then have "j \<le> length xs" using k by auto
      then have "length s - length (drop j xs) = Suc j" using Cons by simp
      then show "(drop j xs, c(i \<mapsto> take (length s - length (drop j xs)) s))
               = (drop (Suc j) s, c(i \<mapsto> take (Suc j) s))" using Cons by simp
    qed
    also have "\<dots> = map (\<lambda>j. (drop j s, c(i \<mapsto> take j s))) (map Suc (rev [0..<Suc ?k]))"
      by (simp add: comp_def del: upt_Suc)
    also have "map Suc (rev [0..<Suc ?k]) = rev [1..<Suc (Suc ?k)]"
      by (simp only: rev_map [symmetric] map_Suc_upt One_nat_def)
    finally have "backtrack (Grp i (class_plus rs)) s c
        = map (\<lambda>j. (drop j s, c(i \<mapsto> take j s))) (rev [1..<Suc (Suc ?k)])" .
    moreover have "length (takeWhile (\<lambda>b. in_ranges b rs) s) = Suc ?k"
      using True Cons by simp
    ultimately show ?thesis by (simp only:)
  qed
qed

lemma chars_backtrack:
  "backtrack (foldr Seq (map Chr l @ A) Eps) s c
     = (if take (length l) s = l then backtrack (foldr Seq A Eps) (drop (length l) s) c else [])"
proof (induction l arbitrary: s)
  case Nil
  show ?case by simp
next
  case (Cons a l)
  show ?case
  proof (cases s)
    case Nil
    then show ?thesis by simp
  next
    case (Cons x xs)
    with Cons.IH [of xs] show ?thesis by simp
  qed
qed

lemma slash_first:
  "s = [] \<or> hd s \<noteq> CHR ''/'' \<Longrightarrow> backtrack (Seq (Chr (CHR ''/'')) R) s c = []"
  by (cases s) auto

lemma slash_step:
  "backtrack (Seq (Chr (CHR ''/'')) R) (CHR ''/'' # t) c = backtrack R t c"
  by simp

lemma concat_map_nil: "(\<forall>x\<in>set xs. h x = []) \<Longrightarrow> concat (map h xs) = []"
  by (induction xs) auto

lemma slash_not_in_class: "\<not> in_ranges (CHR ''/'') (param_class n)"
  by (simp add: param_class_def in_ranges_def digit_ranges_def word_ranges_def)

lemma route_atoms_slash: "segs \<noteq> [] \<Longrightarrow> \<exists>A. route_atoms k segs = Chr (CHR ''/'') # A"
  by (cases segs; cases "hd segs") auto

lemma rev_upt_1: "0 < k \<Longrightarrow> rev [1..<Suc k] = k # rev [1..<k]"
  by simp

lemma group_then:
  fixes P defines "P \<equiv> \<lambda>rs b. in_ranges b rs"
  assumes w: "takeWhile (P rs) t \<noteq> []"
    and none: "\<And>s' c'. s' \<noteq> [] \<Longrightarrow> P rs (hd s') \<Longrightarrow> g (s', c') = []"
  shows "concat (map g (backtrack (Grp i (class_plus rs)) t c))
       = g (dropWhile (P rs) t, c(i \<mapsto> takeWhile (P rs) t))"
proof -
  let ?W = "takeWhile (P rs) t"
  let ?k = "length ?W"
  let ?f = "\<lambda>j. (drop j t, c(i \<mapsto> take j t))"
  have k: "0 < ?k" using w by simp
  have b: "backtrack (Grp i (class_plus rs)) t c = map ?f (?k # rev [1..<?k])"
    using group_class [of i rs t c] rev_upt_1 [OF k] unfolding P_def by simp
  have hd: "?f ?k = (dropWhile (P rs) t, c(i \<mapsto> ?W))"
    by (simp add: takeWhile_eq_take [symmetric] dropWhile_eq_drop [symmetric])
  have others: "g (?f j) = []" if "j \<in> set (rev [1..<?k])" for j
  proof -
    from that have j: "j < ?k" by simp
    have le: "?k \<le> length t" by (rule length_takeWhile_le)
    with j have jl: "j < length t" by simp
    have "P rs (?W ! j)" using j by (metis nth_mem set_takeWhileD)
    then have "P rs (t ! j)" using j by (simp add: takeWhile_nth)
    moreover have "drop j t \<noteq> []" using jl by simp
    moreover have "hd (drop j t) = t ! j" using jl by (simp add: hd_drop_conv_nth)
    ultimately show ?thesis using none [of "drop j t"] by simp
  qed
  have "concat (map g (map ?f (rev [1..<?k]))) = []"
    using concat_map_nil [of "rev [1..<?k]" "\<lambda>j. g (?f j)"] others by (simp add: comp_def)
  with b hd show ?thesis by simp
qed

lemma group_none:
  "takeWhile (\<lambda>b. in_ranges b rs) t = [] \<Longrightarrow> backtrack (Grp i (class_plus rs)) t c = []"
  using group_class [of i rs t c] by simp

lemma group_head:
  assumes "takeWhile (\<lambda>b. in_ranges b rs) t \<noteq> []"
  shows "\<exists>others. backtrack (Grp i (class_plus rs)) t c
           = (dropWhile (\<lambda>b. in_ranges b rs) t, c(i \<mapsto> takeWhile (\<lambda>b. in_ranges b rs) t)) # others"
proof -
  let ?W = "takeWhile (\<lambda>b. in_ranges b rs) t"
  have k: "0 < length ?W" using assms by simp
  have "backtrack (Grp i (class_plus rs)) t c
      = map (\<lambda>j. (drop j t, c(i \<mapsto> take j t))) (length ?W # rev [1..<length ?W])"
    using group_class [of i rs t c] rev_upt_1 [OF k] by simp
  then show ?thesis
    by (simp add: takeWhile_eq_take [symmetric] dropWhile_eq_drop [symmetric])
qed

lemma route_backtrack:
  assumes "\<forall>s\<in>set segs. wf_seg s"
  shows "case walk segs s of
           None \<Rightarrow> backtrack (foldr Seq (route_atoms k segs) Eps) s c = []
         | Some (rest, vs) \<Rightarrow>
             (\<exists>tail. backtrack (foldr Seq (route_atoms k segs) Eps) s c
                  = (rest, set_caps k vs c) # tail)"
  using assms
proof (induction segs arbitrary: s c k)
  case Nil
  show ?case by simp
next
  case (Cons sg segs)
  have wf: "\<forall>s\<in>set segs. wf_seg s" using Cons.prems by simp
  note IH = Cons.IH [OF wf]
  show ?case
  proof (cases sg)
    case (Static l)
    have b: "backtrack (foldr Seq (route_atoms k (sg # segs)) Eps) s c
         = (if take (Suc (length l)) s = CHR ''/'' # l
            then backtrack (foldr Seq (route_atoms k segs) Eps) (drop (Suc (length l)) s) c else [])"
      using chars_backtrack [of "CHR ''/'' # l" "route_atoms k segs" s c] Static by simp
    show ?thesis
    proof (cases "take (Suc (length l)) s = CHR ''/'' # l")
      case True
      have w: "walk (sg # segs) s = walk segs (drop (Suc (length l)) s)"
        using Static True by simp
      have b': "backtrack (foldr Seq (route_atoms k (sg # segs)) Eps) s c
          = backtrack (foldr Seq (route_atoms k segs) Eps) (drop (Suc (length l)) s) c"
        using b True by simp
      show ?thesis unfolding w b'
        using IH [where s = "drop (Suc (length l)) s" and k = k and c = c] .
    next
      case False
      have w: "walk (sg # segs) s = None" using Static False by simp
      have b': "backtrack (foldr Seq (route_atoms k (sg # segs)) Eps) s c = []"
        using b False by simp
      show ?thesis unfolding w b' by simp
    qed
  next
    case (Param n)
    let ?P = "\<lambda>b. in_ranges b (param_class n)"
    let ?R = "foldr Seq (route_atoms (Suc k) segs) Eps"
    let ?G = "Grp (Suc k) (class_plus (param_class n))"
    have atoms: "foldr Seq (route_atoms k (sg # segs)) Eps = Seq (Chr (CHR ''/'')) (Seq ?G ?R)"
      using Param by simp
    show ?thesis
    proof (cases "s \<noteq> [] \<and> hd s = CHR ''/'' \<and> takeWhile ?P (tl s) \<noteq> []")
      case False
      then have w: "walk (sg # segs) s = None" using Param by (cases s) auto
      have "backtrack (Seq (Chr (CHR ''/'')) (Seq ?G ?R)) s c = []"
      proof (cases "s = [] \<or> hd s \<noteq> CHR ''/''")
        case True
        then show ?thesis by (rule slash_first)
      next
        case False
        then obtain t where s: "s = CHR ''/'' # t" by (cases s) auto
        with \<open>\<not> (s \<noteq> [] \<and> hd s = CHR ''/'' \<and> takeWhile ?P (tl s) \<noteq> [])\<close>
        have "takeWhile ?P t = []" by simp
        from group_none [OF this] s show ?thesis by simp
      qed
      then show ?thesis unfolding w atoms by simp
    next
      case True
      then obtain t where s: "s = CHR ''/'' # t" and W: "takeWhile ?P t \<noteq> []" by (cases s) auto
      let ?g = "\<lambda>(s', c'). backtrack ?R s' c'"
      have bt: "backtrack (foldr Seq (route_atoms k (sg # segs)) Eps) s c
           = concat (map ?g (backtrack ?G t c))"
        unfolding atoms s by simp
      show ?thesis
      proof (cases "walk segs (dropWhile ?P t)")
        case None
        then have segs: "segs \<noteq> []" by (cases segs) auto
        from route_atoms_slash [OF this, of "Suc k"] obtain A
          where A: "route_atoms (Suc k) segs = Chr (CHR ''/'') # A" by blast
        have none: "?g (s', c') = []" if "s' \<noteq> []" "in_ranges (hd s') (param_class n)" for s' c'
        proof -
          from that slash_not_in_class [of n] have "hd s' \<noteq> CHR ''/''" by auto
          then show ?thesis using A slash_first [of s' "foldr Seq A Eps" c'] by simp
        qed
        have "concat (map ?g (backtrack ?G t c))
            = ?g (dropWhile ?P t, c(Suc k \<mapsto> takeWhile ?P t))"
          using group_then [where g = ?g and rs = "param_class n" and t = t and i = "Suc k" and c = c, OF W none]
          by simp
        also have "\<dots> = []"
          using IH [where s = "dropWhile ?P t" and k = "Suc k" and c = "c(Suc k \<mapsto> takeWhile ?P t)"] None by simp
        finally have e: "backtrack (foldr Seq (route_atoms k (sg # segs)) Eps) s c = []"
          using bt by simp
        have w: "walk (sg # segs) s = None" using None s W Param by simp
        show ?thesis unfolding w e by simp
      next
        case (Some res)
        obtain rest vs where res: "res = (rest, vs)" by (cases res)
        from group_head [OF W, of "Suc k" c] obtain others where
          o: "backtrack ?G t c = (dropWhile ?P t, c(Suc k \<mapsto> takeWhile ?P t)) # others" by blast
        from IH [where s = "dropWhile ?P t" and k = "Suc k" and c = "c(Suc k \<mapsto> takeWhile ?P t)"] Some res
        obtain tail where
          t: "backtrack ?R (dropWhile ?P t) (c(Suc k \<mapsto> takeWhile ?P t))
                = (rest, set_caps (Suc k) vs (c(Suc k \<mapsto> takeWhile ?P t))) # tail" by auto
        have e: "backtrack (foldr Seq (route_atoms k (sg # segs)) Eps) s c
            = (rest, set_caps k (takeWhile ?P t # vs) c) # (tail @ concat (map ?g others))"
          unfolding bt o using t by simp
        have w: "walk (sg # segs) s = Some (rest, takeWhile ?P t # vs)"
          using Some res s W Param by simp
        show ?thesis unfolding w e by simp
      qed
    qed
  qed
qed

lemma walk_length: "walk segs s = Some (rest, vs) \<Longrightarrow> length vs = length (param_names segs)"
proof (induction segs arbitrary: s vs)
  case Nil
  then show ?case by simp
next
  case (Cons sg segs)
  show ?case
  proof (cases sg)
    case (Static l)
    with Cons show ?thesis by (auto split: if_splits)
  next
    case (Param n)
    with Cons.prems obtain x t vs' where "s = x # t" "vs = takeWhile (\<lambda>b. in_ranges b (param_class n)) t # vs'"
      "walk segs (dropWhile (\<lambda>b. in_ranges b (param_class n)) t) = Some (rest, vs')"
      by (cases s) (auto split: if_splits)
    with Cons.IH [of _ vs'] Param show ?thesis by simp
  qed
qed

lemma set_caps_below: "i \<le> k \<Longrightarrow> set_caps k vs c i = c i"
  by (induction vs arbitrary: k c) auto

lemma set_caps_read:
  "map (\<lambda>i. case set_caps k vs c i of None \<Rightarrow> [] | Some v \<Rightarrow> v) [Suc k..<Suc k + length vs] = vs"
proof (induction vs arbitrary: k c)
  case Nil
  show ?case by simp
next
  case (Cons v vs)
  have u: "[Suc k..<Suc k + length (v # vs)] = Suc k # [Suc (Suc k)..<Suc (Suc k) + length vs]"
    using upt_conv_Cons [of "Suc k" "Suc k + length (v # vs)"] by (simp del: upt_Suc)
  have h: "set_caps (Suc k) vs (c(Suc k \<mapsto> v)) (Suc k) = Some v"
    by (simp add: set_caps_below)
  have ih: "map (\<lambda>i. case set_caps (Suc k) vs (c(Suc k \<mapsto> v)) i of None \<Rightarrow> [] | Some v \<Rightarrow> v)
              [Suc (Suc k)..<Suc (Suc k) + length vs] = vs"
    by (rule Cons)
  show ?case unfolding u by (simp only: list.map set_caps.simps h ih option.case)
qed

lemma bindParams_zip:
  "length names = length vs \<Longrightarrow>
     bindParams names vs m = Inr (foldl (\<lambda>m (n, v). m(n \<mapsto> v)) m (zip names vs))"
proof (induction names arbitrary: vs m)
  case Nil
  then show ?case by simp
next
  case (Cons n names)
  then obtain v vs' where "vs = v # vs'" by (cases vs) auto
  with Cons show ?case by simp
qed

lemma find_leftmost_shorter:
  assumes "backtrack r s Map.empty = []"
  shows "find_leftmost r s = None \<or> (\<exists>m c. find_leftmost r s = Some (m, c) \<and> m \<noteq> s)"
proof (cases s)
  case Nil
  with find_leftmost_Nil [OF assms] show ?thesis by simp
next
  case (Cons x xs)
  with find_leftmost_Nil [OF assms] have e: "find_leftmost r s = find_leftmost r xs" by simp
  show ?thesis
  proof (cases "find_leftmost r xs")
    case None
    with e show ?thesis by simp
  next
    case (Some a)
    obtain m c where a: "a = (m, c)" by (cases a)
    from find_leftmost_length [of r xs m c] Some a have "length m \<le> length xs" by simp
    then have "m \<noteq> s" using Cons by auto
    with e Some a show ?thesis by simp
  qed
qed

lemma matchAndParse_reference_route:
  assumes wf: "\<forall>s\<in>set segs. wf_seg s"
  shows "matchAndParse reference_pkg req (route_path segs) =
           Inr (case walk segs req of
                  None \<Rightarrow> None
                | Some (rest, vs) \<Rightarrow>
                    if rest = [] then Some (bound (param_names segs) vs) else None)"
proof -
  let ?R = "foldr Seq (route_atoms 0 segs) Eps"
  let ?n = "length (param_names segs)"
  have m: "matchAndParse reference_pkg req (route_path segs) =
      (case leftmost_submatch (?R, ?n) req of
         None \<Rightarrow> Inr None
       | Some subMatch \<Rightarrow>
           (case subMatch of
              [] \<Rightarrow> Inl (IndexOutOfRange 274)
            | whole # groups \<Rightarrow>
                if whole = req then
                  (case bindParams (param_names segs) groups Map.empty of
                     Inl e \<Rightarrow> Inl e
                   | Inr m \<Rightarrow> Inr (Some m))
                else Inr None))"
    by (simp add: matchAndParse_def reference_pkg_def compilePath_route [OF wf]
          fragment_compile_route [OF wf])
  show ?thesis
  proof (cases "walk segs req")
    case None
    with route_backtrack [OF wf, where s = req and k = 0 and c = Map.empty]
    have "backtrack ?R req Map.empty = []" by simp
    from find_leftmost_shorter [OF this] None show ?thesis
      unfolding m by (auto simp: leftmost_submatch_def)
  next
    case (Some res)
    obtain rest vs where res: "res = (rest, vs)" by (cases res)
    from route_backtrack [OF wf, where s = req and k = 0 and c = Map.empty] Some res obtain tail where
      b: "backtrack ?R req Map.empty = (rest, set_caps 0 vs Map.empty) # tail" by auto
    from find_leftmost_first [OF b]
    have f: "find_leftmost ?R req = Some (take (length req - length rest) req, set_caps 0 vs Map.empty)" .
    have len: "length vs = ?n" using walk_length Some res by simp
    have "(rest, set_caps 0 vs Map.empty) \<in> set (backtrack ?R req Map.empty)" using b by simp
    from backtrack_length [OF this] have le: "length rest \<le> length req" .
    have caps: "map (\<lambda>i. case set_caps 0 vs Map.empty i of None \<Rightarrow> [] | Some v \<Rightarrow> v) [1..<Suc ?n] = vs"
      using set_caps_read [of 0 vs Map.empty] len by simp
    show ?thesis
    proof (cases "rest = []")
      case True
      with f caps have "leftmost_submatch (?R, ?n) req = Some (req # vs)"
        by (simp add: leftmost_submatch_def)
      with True Some res bindParams_zip [of "param_names segs" vs Map.empty] len
      show ?thesis unfolding m by (simp add: bound_def)
    next
      case False
      then have "length (take (length req - length rest) req) < length req"
        using le by (cases rest) auto
      then have "take (length req - length rest) req \<noteq> req" by auto
      with f False Some res show ?thesis unfolding m by (simp add: leftmost_submatch_def)
    qed
  qed
qed

lemma conforms_transfer:
  "conforms E path s \<Longrightarrow> matchAndParse E s path = matchAndParse reference_pkg s path"
  by (auto simp: conforms_def matchAndParse_def reference_pkg_def split: sum.splits option.splits)

lemma conforms_reference:
  "compilePath path = Inr (names, pattern) \<Longrightarrow> fragment_compile pattern = Some fr
     \<Longrightarrow> conforms reference_pkg path s"
  by (simp add: conforms_def reference_pkg_def)

lemma conforms_reference_route:
  "\<forall>s\<in>set segs. wf_seg s \<Longrightarrow> conforms reference_pkg (route_path segs) req"
  using compilePath_route fragment_compile_route conforms_reference by blast

lemma matchAndParse_route:
  assumes "\<forall>s\<in>set segs. wf_seg s" "conforms E (route_path segs) req"
  shows "matchAndParse E req (route_path segs) =
           Inr (case walk segs req of
                  None \<Rightarrow> None
                | Some (rest, vs) \<Rightarrow>
                    if rest = [] then Some (bound (param_names segs) vs) else None)"
  using conforms_transfer [OF assms(2)] matchAndParse_reference_route [OF assms(1)] by simp

lemmas eval_defs = matchAndParse_def compilePath_def fragment_compile_def bslash_def
   leftmost_submatch_def reference_pkg_def mkseq_def finish_def idKey_def idPattern_def
   defaultPattern_def class_escape_def digit_ranges_def word_ranges_def in_ranges_def
   repeat_def is_rep_def backtrack.simps(7)

subsection \<open>The matched span\<close>

text \<open>
  Claim C5. Whatever the regexp package compiles and returns, \<open>matchAndParse\<close> succeeds
  only when the match the package reports for the compiled pattern is the whole request
  path: element 0 of the submatches is the request path itself. When the package
  reports any other span, the result is \<open>(nil, false)\<close>.
\<close>

theorem whole_span_only:
  "(matchAndParse E requestUrl path = Inr (Some m) \<longrightarrow>
      (\<exists>matchName pattern re groups.
          compilePath path = Inr (matchName, pattern) \<and> MustCompile E pattern = Some re
        \<and> FindSubmatch E re requestUrl = Some (requestUrl # groups)))
   \<and> (compilePath path = Inr (matchName, pattern) \<and> MustCompile E pattern = Some re
        \<and> FindSubmatch E re requestUrl = Some (span # groups) \<and> span \<noteq> requestUrl \<longrightarrow>
      matchAndParse E requestUrl path = Inr None)"
proof (intro conjI impI)
  assume a: "matchAndParse E requestUrl path = Inr (Some m)"
  then obtain names pat where c: "compilePath path = Inr (names, pat)"
    by (cases "compilePath path") (auto simp: matchAndParse_def)
  with a obtain re where r: "MustCompile E pat = Some re"
    by (cases "MustCompile E pat") (auto simp: matchAndParse_def)
  with a c obtain sub where f: "FindSubmatch E re requestUrl = Some sub"
    by (cases "FindSubmatch E re requestUrl") (auto simp: matchAndParse_def)
  with a c r obtain whole gs where s: "sub = whole # gs"
    by (cases sub) (auto simp: matchAndParse_def)
  with a c r f have "whole = requestUrl"
    by (auto simp: matchAndParse_def split: if_splits)
  with c r f s show "\<exists>matchName pattern re groups.
          compilePath path = Inr (matchName, pattern) \<and> MustCompile E pattern = Some re
        \<and> FindSubmatch E re requestUrl = Some (requestUrl # groups)" by blast
next
  assume "compilePath path = Inr (matchName, pattern) \<and> MustCompile E pattern = Some re
        \<and> FindSubmatch E re requestUrl = Some (span # groups) \<and> span \<noteq> requestUrl"
  then show "matchAndParse E requestUrl path = Inr None"
    by (simp add: matchAndParse_def)
qed

theorem whole_span_only_witness:
  "matchAndParse reference_pkg ''/users/42'' ''/users/:id'' = Inr (Some [''id'' \<mapsto> ''42''])
   \<and> (\<exists>matchName pattern re groups.
          compilePath ''/users/:id'' = Inr (matchName, pattern)
        \<and> MustCompile reference_pkg pattern = Some re
        \<and> FindSubmatch reference_pkg re ''/users/42'' = Some (''/users/42'' # groups))
   \<and> (\<exists>pattern re. compilePath ''/users/:id'' = Inr ([''id''], pattern)
        \<and> MustCompile reference_pkg pattern = Some re
        \<and> FindSubmatch reference_pkg re ''/users/42x'' = Some [''/users/42'', ''42''])
   \<and> matchAndParse reference_pkg ''/users/42x'' ''/users/:id'' = Inr None"
proof -
  let ?pat = "''/users/(['' @ [bslash] @ ''d]+)''"
  have c: "compilePath ''/users/:id'' = Inr ([''id''], ?pat)"
    by (simp add: compilePath_def idKey_def idPattern_def)
  obtain re where re: "MustCompile reference_pkg ?pat = Some re"
    and f: "FindSubmatch reference_pkg re ''/users/42x'' = Some [''/users/42'', ''42'']"
    by (simp add: eval_defs)
  have m: "matchAndParse reference_pkg ''/users/42'' ''/users/:id'' = Inr (Some [''id'' \<mapsto> ''42''])"
    by (simp add: eval_defs)
  from whole_span_only [of reference_pkg "''/users/42''" "''/users/:id''" "[''id'' \<mapsto> ''42'']"] m
  have a: "\<exists>matchName pattern re groups.
          compilePath ''/users/:id'' = Inr (matchName, pattern)
        \<and> MustCompile reference_pkg pattern = Some re
        \<and> FindSubmatch reference_pkg re ''/users/42'' = Some (''/users/42'' # groups)" by blast
  from whole_span_only [of reference_pkg "''/users/42x''" "''/users/:id''" _ "[''id'']" ?pat re
      "''/users/42''" "[''42'']"] c re f
  have n: "matchAndParse reference_pkg ''/users/42x'' ''/users/:id'' = Inr None" by simp
  from c re f have b: "\<exists>pattern re. compilePath ''/users/:id'' = Inr ([''id''], pattern)
        \<and> MustCompile reference_pkg pattern = Some re
        \<and> FindSubmatch reference_pkg re ''/users/42x'' = Some [''/users/42'', ''42'']" by blast
  from m a b n show ?thesis by blast
qed

subsection \<open>The empty request path\<close>

lemma count_list_pos: "x \<in> set xs \<Longrightarrow> 0 < count_list xs x"
  by (induction xs) auto

lemma slash_path_split_guarded:
  assumes "CHR ''/'' \<in> set (URL_Path r)"
  shows "tryPrefix E t w r = tryCandidates E w r (Find t (Split (URL_Path r) (CHR ''/'') ! 1) 1)"
  using count_list_pos [OF assms] by (simp add: tryPrefix_def Split_length Let_def)

text \<open>
  Claim C2, on the empty path. The split of the request path is indexed at line 172
  without a check of its length. A path that holds a slash splits into two pieces or
  more (\<open>slash_path_split_guarded\<close>), but the empty path splits into one: when the
  exact lookup finds no route for it, \<open>ServeHTTP\<close> panics with the index fault of
  line 172.
\<close>

theorem empty_path_split_fault:
  assumes "trees router (Method r) = Some t" "URL_Path r = []" "exact t [] = None"
  shows "serve E router w r = Inl (IndexOutOfRange 172, r)
       \<and> ServeHTTP E router w r =
           (case PanicHandler router of
              None \<Rightarrow> Inl (IndexOutOfRange 172)
            | Some ph \<Rightarrow> Inr (ph w r (IndexOutOfRange 172)))"
proof -
  have f: "Find t (URL_Path r) 0 = []" using assms by (simp add: Find_def)
  have s: "serve E router w r = Inl (IndexOutOfRange 172, r)"
    using assms f by (simp add: serve_def tryExact_def tryPrefix_def)
  then show ?thesis by (simp add: ServeHTTP_def)
qed

lemmas setup_defs = Handle_def methods_def New_def Tree_Add_def compilePath_def NewTree_def
  Let_def fullPath_def firstSegment_def

theorem empty_path_split_fault_witness:
  "\<exists>router t. Handle New ''GET'' ''/a'' (terminal ''ok'') = (None, router)
      \<and> trees router ''GET'' = Some t \<and> exact t [] = None
      \<and> ServeHTTP reference_pkg router \<lparr>statusCode = 0, written = []\<rparr>
            \<lparr>Method = ''GET'', URL_Path = [], ctxParams = None\<rparr> = Inl (IndexOutOfRange 172)"
proof -
  let ?r = "\<lparr>Method = ''GET'', URL_Path = [], ctxParams = None\<rparr>"
  obtain router t where h: "Handle New ''GET'' ''/a'' (terminal ''ok'') = (None, router)"
    and t: "trees router ''GET'' = Some t" and e: "exact t [] = None"
    and p: "PanicHandler router = None"
    by (simp add: setup_defs)
  from t have t': "trees router (Method ?r) = Some t" by simp
  from empty_path_split_fault [OF t' _ e, of reference_pkg "\<lparr>statusCode = 0, written = []\<rparr>"] p
  have "ServeHTTP reference_pkg router \<lparr>statusCode = 0, written = []\<rparr> ?r = Inl (IndexOutOfRange 172)"
    by simp
  with h t e show ?thesis by blast
qed

subsection \<open>The middleware chain\<close>






lemma Handle_static:
  assumes "methods meth \<noteq> None" "compilePath (fullPath router p) = Inr ([], pattern)"
  shows "\<exists>t. Handle router meth p h = (None, router\<lparr>trees := (trees router)(meth \<mapsto> t)\<rparr>)
           \<and> exact t (fullPath router p)
               = Some \<lparr>node_path = fullPath router p, node_handle = Some h,
                       node_middleware = middleware router\<rparr>"
  using assms by (auto simp: Handle_def Tree_Add_def Let_def)

lemma serve_exact:
  assumes "trees router (Method r) = Some t" "exact t (URL_Path r) = Some node"
    "node_path node = URL_Path r" "node_handle node = Some h"
  shows "serve E router w r = invoke w r h (node_middleware node)"
  using assms by (simp add: serve_def Find_def tryExact_def)

lemma ServeHTTP_invoke:
  "serve E router w r = invoke w r h mws \<Longrightarrow>
   ServeHTTP E router w r =
     (case handle w r h mws of
        Inr w' \<Rightarrow> Inr w'
      | Inl msg \<Rightarrow>
          (case PanicHandler router of
             None \<Rightarrow> Inl (HandlerPanic msg)
           | Some ph \<Rightarrow> Inr (ph w r (HandlerPanic msg))))"
  by (simp add: ServeHTTP_def invoke_def split: sum.splits)



subsection \<open>Requests for a method without a tree\<close>

lemma Handle_other_tree: "m \<noteq> meth \<Longrightarrow> trees (snd (Handle router meth p h)) m = trees router m"
  by (simp add: Handle_def Let_def split: sum.splits)

lemma Handle_invalid: "methods meth = None \<Longrightarrow> Handle router meth p h = (Some InvalidMethod, router)"
  by (simp add: Handle_def)

lemma Handle_makes_tree: "methods meth \<noteq> None \<Longrightarrow> trees (snd (Handle router meth p h)) meth \<noteq> None"
  by (auto simp: Handle_def Let_def split: sum.splits)

lemma Handle_keeps_tree: "trees router m \<noteq> None \<Longrightarrow> trees (snd (Handle router meth p h)) m \<noteq> None"
  by (cases "m = meth") (auto simp: Handle_def Let_def split: sum.splits)

lemma setup_step_keeps_tree:
  "trees router m \<noteq> None \<Longrightarrow> trees (snd (setup_step router c)) m \<noteq> None"
proof (cases c)
  case (CallGroupHandle g meth p h)
  assume "trees router m \<noteq> None"
  then have "trees (g\<lparr>trees := trees router\<rparr>) m \<noteq> None" by simp
  from Handle_keeps_tree [OF this] CallGroupHandle show ?thesis by simp
qed (simp_all add: Handle_keeps_tree Use_def NotFoundFunc_def)

lemma run_setup_keeps_tree:
  "trees router m \<noteq> None \<Longrightarrow> trees (run_setup router calls) m \<noteq> None"
proof (induction calls arbitrary: router)
  case Nil
  then show ?case by simp
next
  case (Cons c calls)
  from setup_step_keeps_tree [OF Cons.prems] have "trees (snd (setup_step router c)) m \<noteq> None" .
  from Cons.IH [OF this] show ?case by simp
qed

lemma Handle_unnamed:
  "m \<noteq> meth \<or> methods meth = None \<Longrightarrow> trees (snd (Handle router m p h)) meth = trees router meth"
  by (cases "m = meth") (auto simp: Handle_invalid Handle_other_tree)

lemma setup_step_other:
  assumes "call_method c \<noteq> Some meth \<or> methods meth = None"
  shows "trees (snd (setup_step router c)) meth = trees router meth"
proof (cases c)
  case (CallHandle m p h)
  with assms have "m \<noteq> meth \<or> methods meth = None" by auto
  from Handle_unnamed [OF this] CallHandle show ?thesis by simp
next
  case (CallGroupHandle g m p h)
  with assms have "m \<noteq> meth \<or> methods meth = None" by auto
  from Handle_unnamed [OF this, of "g\<lparr>trees := trees router\<rparr>"] CallGroupHandle
  show ?thesis by simp
qed (simp_all add: Use_def NotFoundFunc_def)

lemma run_setup_no_tree:
  assumes "Some meth \<notin> set (map call_method calls) \<or> methods meth = None"
  shows "trees (run_setup router calls) meth = trees router meth"
  using assms
proof (induction calls arbitrary: router)
  case Nil
  show ?case by simp
next
  case (Cons c calls)
  have 1: "call_method c \<noteq> Some meth \<or> methods meth = None" using Cons.prems by auto
  have 2: "Some meth \<notin> set (map call_method calls) \<or> methods meth = None"
    using Cons.prems by auto
  show ?case using Cons.IH [OF 2] setup_step_other [OF 1] by simp
qed

lemma setup_step_makes_tree:
  assumes "call_method c = Some meth" "methods meth \<noteq> None"
  shows "trees (snd (setup_step router c)) meth \<noteq> None"
proof (cases c)
  case (CallHandle m p h)
  with assms Handle_makes_tree [OF assms(2)] show ?thesis by simp
next
  case (CallGroupHandle g m p h)
  with assms Handle_makes_tree [OF assms(2)] show ?thesis by simp
qed (use assms in simp_all)

lemma run_setup_tree:
  assumes "Some meth \<in> set (map call_method calls)" "methods meth \<noteq> None"
  shows "trees (run_setup router calls) meth \<noteq> None"
  using assms
proof (induction calls arbitrary: router)
  case Nil
  then show ?case by simp
next
  case (Cons c calls)
  show ?case
  proof (cases "call_method c = Some meth")
    case True
    from setup_step_makes_tree [OF True Cons.prems(2)]
    have "trees (snd (setup_step router c)) meth \<noteq> None" .
    from run_setup_keeps_tree [OF this] show ?thesis by simp
  next
    case False
    with Cons.prems have "Some meth \<in> set (map call_method calls)" by auto
    from Cons.IH [OF this Cons.prems(2)] show ?thesis by simp
  qed
qed

lemma compileSegments_fault_line:
  "compileSegments segs m s = Inl e \<Longrightarrow> e = IndexOutOfRange 252 \<or> e = IndexOutOfRange 256"
  by (induction segs m s rule: compileSegments.induct) (auto simp: Let_def split: if_splits)

lemma bindParams_fault_line: "bindParams names vs m = Inl e \<Longrightarrow> e = IndexOutOfRange 277"
  by (induction names vs m rule: bindParams.induct) auto

lemma matchAndParse_fault:
  assumes "matchAndParse E req path = Inl e"
  shows "(\<exists>n. e = IndexOutOfRange n) \<or> (\<exists>p. e = RegexpCompile p)"
proof (cases "compilePath path")
  case (Inl a)
  with assms have "compileSegments (Split path CHR ''/'') [] [] = Inl e"
    by (auto simp: matchAndParse_def compilePath_def)
  from compileSegments_fault_line [OF this] show ?thesis by blast
next
  case (Inr res)
  with assms show ?thesis
    by (auto simp: matchAndParse_def dest: bindParams_fault_line
          split: prod.splits option.splits list.splits if_splits sum.splits)
qed

lemma tryCandidates_fault:
  "tryCandidates E w r nodes = Some (Inl (e, r')) \<Longrightarrow> e \<noteq> MethodNotRegistered"
proof (induction nodes)
  case Nil
  then show ?case by simp
next
  case (Cons node nodes)
  show ?case
  proof (cases "node_handle node")
    case None
    with Cons show ?thesis by simp
  next
    case (Some h)
    show ?thesis
    proof (cases "node_path node = URL_Path r")
      case True
      with Cons Some show ?thesis by simp
    next
      case False
      show ?thesis
      proof (cases "matchAndParse E (URL_Path r) (node_path node)")
        case (Inl a)
        with Cons.prems Some False have "e = a" by simp
        with matchAndParse_fault [OF Inl] show ?thesis by auto
      next
        case (Inr res)
        with Cons Some False show ?thesis
          by (cases res) (auto simp: invoke_def split: sum.splits)
      qed
    qed
  qed
qed

lemma serve_tree_no_method_fault:
  assumes "trees router (Method r) \<noteq> None"
  shows "serve E router w r \<noteq> Inl (MethodNotRegistered, r')"
proof
  assume a: "serve E router w r = Inl (MethodNotRegistered, r')"
  from assms obtain t where t: "trees router (Method r) = Some t" by auto
  let ?nodes = "Find t (URL_Path r) 0"
  show False
  proof (cases "tryExact w r ?nodes")
    case (Some out)
    with a t have "out = Inl (MethodNotRegistered, r')" by (simp add: serve_def)
    with Some show False
      by (auto simp: tryExact_def invoke_def split: list.splits option.splits if_splits sum.splits)
  next
    case None
    show False
    proof (cases "if ?nodes = [] then tryPrefix E t w r else None")
      case (Some out)
      with a t None have o: "out = Inl (MethodNotRegistered, r')" by (simp add: serve_def)
      from Some have "tryPrefix E t w r = Some out" by (auto split: if_splits)
      with o tryCandidates_fault [of E w r _ MethodNotRegistered r'] show False
        by (auto simp: tryPrefix_def Let_def split: if_splits)
    next
      case n2: None
      with a t None show False
        by (auto simp: serve_def split: sum.splits)
    qed
  qed
qed

text \<open>
  Claim C6, amended. \<open>ServeHTTP\<close> raises the unregistered-method fault exactly when
  the router holds no tree for the request's method (line 148). After any sequence of
  setup calls on a new router and through its groups, a request whose method no call of
  \<open>Handle\<close> named is answered by the fault, and with a \<open>PanicHandler\<close> installed the
  response is what the handler makes of that fault value. A method has no tree exactly
  when it is not one of the supported methods or no call of \<open>Handle\<close> named it; and once
  a tree is there, dispatch never raises the fault. What decides is the tree, which
  line 102 stores before line 109 adds the route, and not the number of routes in it.
\<close>

theorem unregistered_method_faults:
  "(Some (Method r) \<notin> set (map call_method calls) \<longrightarrow>
       ServeHTTP E (run_setup New calls) w r =
         (case PanicHandler (run_setup New calls) of
            None \<Rightarrow> Inl MethodNotRegistered
          | Some ph \<Rightarrow> Inr (ph w r MethodNotRegistered)))
   \<and> (trees (run_setup New calls) meth = None)
       = (methods meth = None \<or> Some meth \<notin> set (map call_method calls))
   \<and> (trees router (Method r) \<noteq> None \<longrightarrow> serve E router w r \<noteq> Inl (MethodNotRegistered, r'))"
proof (intro conjI impI)
  assume "Some (Method r) \<notin> set (map call_method calls)"
  then have "trees (run_setup New calls) (Method r) = None"
    using run_setup_no_tree [of "Method r" calls New] by (simp add: New_def)
  then show "ServeHTTP E (run_setup New calls) w r =
         (case PanicHandler (run_setup New calls) of
            None \<Rightarrow> Inl MethodNotRegistered
          | Some ph \<Rightarrow> Inr (ph w r MethodNotRegistered))"
    by (simp add: ServeHTTP_def serve_def)
next
  show "(trees (run_setup New calls) meth = None)
       = (methods meth = None \<or> Some meth \<notin> set (map call_method calls))"
  proof
    assume n: "trees (run_setup New calls) meth = None"
    show "methods meth = None \<or> Some meth \<notin> set (map call_method calls)"
    proof (rule ccontr)
      assume "\<not> (methods meth = None \<or> Some meth \<notin> set (map call_method calls))"
      then have "Some meth \<in> set (map call_method calls)" "methods meth \<noteq> None" by auto
      from run_setup_tree [OF this, of New] n show False by blast
    qed
  next
    assume "methods meth = None \<or> Some meth \<notin> set (map call_method calls)"
    then have "Some meth \<notin> set (map call_method calls) \<or> methods meth = None" by auto
    from run_setup_no_tree [OF this, of New] show "trees (run_setup New calls) meth = None"
      by (simp add: New_def)
  qed
next
  assume "trees router (Method r) \<noteq> None"
  then show "serve E router w r \<noteq> Inl (MethodNotRegistered, r')"
    by (rule serve_tree_no_method_fault)
qed

theorem unregistered_method_faults_witness:
  "ServeHTTP reference_pkg
      (run_setup New [CallHandle ''GET'' ''/a'' (terminal ''ok''),
                      CallGroupHandle (Group New ''api'') ''PUT'' ''b'' (terminal ''ok''),
                      SetPanicHandler (\<lambda>w r e. w\<lparr>statusCode := 500\<rparr>)])
      \<lparr>statusCode = 0, written = []\<rparr> \<lparr>Method = ''POST'', URL_Path = ''/a'', ctxParams = None\<rparr>
     = Inr \<lparr>statusCode = 500, written = []\<rparr>
   \<and> ServeHTTP reference_pkg (run_setup New [CallHandle ''GET'' ''/a'' (terminal ''ok'')])
      \<lparr>statusCode = 0, written = []\<rparr> \<lparr>Method = ''POST'', URL_Path = ''/a'', ctxParams = None\<rparr>
     = Inl MethodNotRegistered
   \<and> trees (run_setup New [CallHandle ''GET'' ''/a'' (terminal ''ok'')]) ''GET'' \<noteq> None"
proof -
  let ?c1 = "[CallHandle ''GET'' ''/a'' (terminal ''ok''),
              CallGroupHandle (Group New ''api'') ''PUT'' ''b'' (terminal ''ok''),
              SetPanicHandler (\<lambda>w r e. w\<lparr>statusCode := 500\<rparr>)]"
  let ?c2 = "[CallHandle ''GET'' ''/a'' (terminal ''ok'')]"
  let ?r = "\<lparr>Method = ''POST'', URL_Path = ''/a'', ctxParams = None\<rparr>"
  let ?w = "\<lparr>statusCode = 0, written = []\<rparr>"
  have p1: "PanicHandler (run_setup New ?c1) = Some (\<lambda>w r e. w\<lparr>statusCode := 500\<rparr>)"
    by (simp add: setup_defs)
  have p2: "PanicHandler (run_setup New ?c2) = None"
    by (simp add: setup_defs)
  have n1: "Some (Method ?r) \<notin> set (map call_method ?c1)" by simp
  have n2: "Some (Method ?r) \<notin> set (map call_method ?c2)" by simp
  note t1 = unregistered_method_faults [where r = ?r and calls = ?c1 and E = reference_pkg and w = ?w]
  note t2 = unregistered_method_faults [where r = ?r and calls = ?c2 and E = reference_pkg and w = ?w
      and meth = "''GET''"]
  from t1 n1 p1 have a: "ServeHTTP reference_pkg (run_setup New ?c1) ?w ?r
      = Inr \<lparr>statusCode = 500, written = []\<rparr>" by simp
  from t2 n2 p2 have b: "ServeHTTP reference_pkg (run_setup New ?c2) ?w ?r = Inl MethodNotRegistered"
    by simp
  from t2 have c: "trees (run_setup New ?c2) ''GET'' \<noteq> None" by (simp add: methods_def)
  from a b c show ?thesis by blast
qed

text \<open>
  Claim C6, as stated, fails for a method whose only registration faulted. A
  registration that faults in \<open>Add\<close> has already stored the method's tree: no route of
  the method is registered, and a request of that method is answered by the plain 404
  page, not by the fault.
\<close>

theorem faulted_registration_counterexample:
  "fst (Handle New ''GET'' ''/items/{name}'' (terminal ''ok'')) = Some (IndexOutOfRange 252)
   \<and> trees (snd (Handle New ''GET'' ''/items/{name}'' (terminal ''ok''))) ''GET'' = Some NewTree
   \<and> ServeHTTP reference_pkg (snd (Handle New ''GET'' ''/items/{name}'' (terminal ''ok'')))
        \<lparr>statusCode = 0, written = []\<rparr> \<lparr>Method = ''GET'', URL_Path = ''/a'', ctxParams = None\<rparr>
      = Inr \<lparr>statusCode = 404, written = ''404 page not found'' @ [CHR 0x0A]\<rparr>"
  by (simp add: setup_defs ServeHTTP_def serve_def Find_def tryExact_def tryPrefix_def
        HandleNotFound_def http_NotFound_def)

subsection \<open>Segments of a route and segments of a request\<close>


lemma walk_fill:
  "walk segs s = Some (rest, vs) \<Longrightarrow> s = concat (map ((#) (CHR ''/'')) (fill segs vs)) @ rest"
proof (induction segs arbitrary: s vs)
  case Nil
  then show ?case by simp
next
  case (Cons sg segs)
  show ?case
  proof (cases sg)
    case (Static l)
    with Cons.prems have t: "take (Suc (length l)) s = CHR ''/'' # l"
      and w: "walk segs (drop (Suc (length l)) s) = Some (rest, vs)"
      by (auto split: if_splits)
    have "concat (map ((#) (CHR ''/'')) (fill (sg # segs) vs)) @ rest
        = (CHR ''/'' # l) @ (concat (map ((#) (CHR ''/'')) (fill segs vs)) @ rest)"
      using Static by simp
    also have "\<dots> = take (Suc (length l)) s @ drop (Suc (length l)) s"
      by (simp only: t Cons.IH [OF w, symmetric])
    also have "\<dots> = s" by (rule append_take_drop_id)
    finally show ?thesis by (rule sym)
  next
    case (Param n)
    let ?P = "\<lambda>b. in_ranges b (param_class n)"
    from Cons.prems Param obtain t vs' where s: "s = CHR ''/'' # t" and vs: "vs = takeWhile ?P t # vs'"
      and w: "walk segs (dropWhile ?P t) = Some (rest, vs')"
      by (cases s) (auto split: if_splits)
    have "concat (map ((#) (CHR ''/'')) (fill (sg # segs) vs)) @ rest
        = CHR ''/'' # takeWhile ?P t @ (concat (map ((#) (CHR ''/'')) (fill segs vs')) @ rest)"
      using Param vs by simp
    also have "\<dots> = CHR ''/'' # takeWhile ?P t @ dropWhile ?P t"
      by (simp only: Cons.IH [OF w, symmetric])
    also have "\<dots> = s" using s by simp
    finally show ?thesis by (rule sym)
  qed
qed






lemma param_class_id:
  "param_class n = (if n = ''id'' then digit_ranges else word_ranges)"
  by (simp add: param_class_def idKey_def)

lemma walk_accepts:
  "walk segs s = Some (rest, vs) \<Longrightarrow>
     list_all2 segment_matches segs (fill segs vs) \<and> param_values segs (fill segs vs) = vs"
proof (induction segs arbitrary: s vs)
  case Nil
  then show ?case by simp
next
  case (Cons sg segs)
  show ?case
  proof (cases sg)
    case (Static l)
    with Cons.prems have w: "walk segs (drop (Suc (length l)) s) = Some (rest, vs)"
      by (auto split: if_splits)
    from Cons.IH [OF w] Static show ?thesis by simp
  next
    case (Param n)
    let ?P = "\<lambda>b. in_ranges b (param_class n)"
    from Cons.prems Param obtain t vs' where s: "s = CHR ''/'' # t" and vs: "vs = takeWhile ?P t # vs'"
      and ne: "takeWhile ?P t \<noteq> []"
      and w: "walk segs (dropWhile ?P t) = Some (rest, vs')"
      by (cases s) (auto split: if_splits)
    have "\<forall>b\<in>set (takeWhile ?P t). ?P b" by (auto dest: set_takeWhileD)
    then have "list_all ?P (takeWhile ?P t)" by (simp only: list_all_iff)
    then have "segment_matches (Param n) (takeWhile ?P t)"
      using ne by (simp add: param_class_id)
    with Cons.IH [OF w] Param vs show ?thesis by simp
  qed
qed

lemma takeWhile_run:
  assumes "list_all P v" "t = [] \<or> \<not> P (hd t)"
  shows "takeWhile P (v @ t) = v" "dropWhile P (v @ t) = t"
proof -
  have a: "\<forall>x\<in>set v. P x" using assms(1) by (simp add: list_all_iff)
  have b: "takeWhile P t = []" using assms(2) by (cases t) auto
  have c: "dropWhile P t = t" using assms(2) by (cases t) auto
  show "takeWhile P (v @ t) = v" using a b by (simp add: takeWhile_append2)
  show "dropWhile P (v @ t) = t" using a c by (simp add: dropWhile_append2)
qed

lemma slash_list_head:
  "concat (map ((#) (CHR ''/'')) vals) = [] \<or> hd (concat (map ((#) (CHR ''/'')) vals)) = CHR ''/''"
  by (cases vals) simp_all

lemma accepts_walk:
  "list_all2 segment_matches segs vals \<Longrightarrow>
     walk segs (concat (map ((#) (CHR ''/'')) vals)) = Some ([], param_values segs vals)"
proof (induction segs vals rule: list_all2_induct)
  case Nil
  show ?case by simp
next
  case (Cons sg segs v vals)
  let ?t = "concat (map ((#) (CHR ''/'')) vals)"
  show ?case
  proof (cases sg)
    case (Static l)
    with Cons show ?thesis by simp
  next
    case (Param n)
    let ?P = "\<lambda>b. in_ranges b (param_class n)"
    from Cons.hyps(1) Param have ne: "v \<noteq> []" and all: "list_all ?P v"
      by (simp_all add: param_class_id)
    have "?t = [] \<or> \<not> ?P (hd ?t)"
      using slash_list_head [of vals] slash_not_in_class [of n] by auto
    from takeWhile_run [OF all this] have tw: "takeWhile ?P (v @ ?t) = v"
      and dw: "dropWhile ?P (v @ ?t) = ?t" .
    have "walk (sg # segs) (concat (map ((#) (CHR ''/'')) (v # vals)))
        = walk (Param n # segs) (CHR ''/'' # (v @ ?t))" using Param by simp
    also have "\<dots> = map_option (\<lambda>(rest, vs). (rest, v # vs)) (walk segs ?t)"
      by (simp only: walk.simps list.case tw dw) (simp add: ne)
    also have "\<dots> = Some ([], param_values (sg # segs) (v # vals))"
      using Cons.IH Param by simp
    finally show ?thesis .
  qed
qed

text \<open>
  Claim C4. A segment \<open>:name\<close> matches exactly the non-empty runs of word bytes
  \<open>[0-9A-Za-z_]\<close>, and when the name is \<open>id\<close> exactly the non-empty runs of digits. For a
  route of static segments without pattern syntax and of \<open>:name\<close> parameters, wherever
  the parameters stand, and a regexp package that returns for the route's pattern and
  the request what the reference does: a request path is matched exactly when it has one
  segment for each segment of the route, each static segment's the same text and each
  parameter's such a run; the parameters are then bound to their segments, and every
  other request path is not matched. \<open>/users/:id\<close> matches \<open>/users/42\<close> with \<open>id\<close> bound
  to \<open>42\<close> and does not match \<open>/users/abc\<close>.
\<close>

theorem param_segment_class:
  assumes wf: "\<forall>s\<in>set segs. wf_seg s" and c: "conforms E (route_path segs) req"
  shows "(\<forall>vals. req = concat (map ((#) (CHR ''/'')) vals) \<and> list_all2 segment_matches segs vals \<longrightarrow>
            matchAndParse E req (route_path segs)
              = Inr (Some (bound (param_names segs) (param_values segs vals))))
       \<and> ((\<nexists>vals. req = concat (map ((#) (CHR ''/'')) vals) \<and> list_all2 segment_matches segs vals) \<longrightarrow>
            matchAndParse E req (route_path segs) = Inr None)"
proof (intro conjI allI impI)
  fix vals
  assume a: "req = concat (map ((#) (CHR ''/'')) vals) \<and> list_all2 segment_matches segs vals"
  then have "walk segs req = Some ([], param_values segs vals)"
    using accepts_walk [of segs vals] by simp
  then show "matchAndParse E req (route_path segs)
      = Inr (Some (bound (param_names segs) (param_values segs vals)))"
    unfolding matchAndParse_route [OF wf c] by simp
next
  assume n: "\<nexists>vals. req = concat (map ((#) (CHR ''/'')) vals) \<and> list_all2 segment_matches segs vals"
  have "\<not> (\<exists>vs. walk segs req = Some ([], vs))"
  proof
    assume "\<exists>vs. walk segs req = Some ([], vs)"
    then obtain vs where w: "walk segs req = Some ([], vs)" by blast
    from walk_fill [OF w] have "req = concat (map ((#) (CHR ''/'')) (fill segs vs))" by simp
    with walk_accepts [OF w] n show False by blast
  qed
  then show "matchAndParse E req (route_path segs) = Inr None"
    unfolding matchAndParse_route [OF wf c] by (auto split: option.splits)
qed

theorem param_segment_class_witness:
  "matchAndParse reference_pkg ''/users/42'' ''/users/:id'' = Inr (Some [''id'' \<mapsto> ''42''])
   \<and> matchAndParse reference_pkg ''/users/abc'' ''/users/:id'' = Inr None
   \<and> matchAndParse reference_pkg ''/users/abc_9'' ''/users/:name'' = Inr (Some [''name'' \<mapsto> ''abc_9''])
   \<and> matchAndParse reference_pkg ''/users/a-b'' ''/users/:name'' = Inr None"
proof -
  let ?i = "[Static ''users'', Param ''id'']"
  let ?n = "[Static ''users'', Param ''name'']"
  have wi: "\<forall>s\<in>set ?i. wf_seg s" and wn: "\<forall>s\<in>set ?n. wf_seg s"
    by (simp_all add: is_literal_def bslash_def)
  have pi: "route_path ?i = ''/users/:id''" and pn: "route_path ?n = ''/users/:name''"
    by (simp_all add: route_path_def)
  note ti = param_segment_class [OF wi conforms_reference_route [OF wi]]
  note tn = param_segment_class [OF wn conforms_reference_route [OF wn]]
  have 1: "matchAndParse reference_pkg ''/users/42'' ''/users/:id'' = Inr (Some [''id'' \<mapsto> ''42''])"
  proof -
    have "''/users/42'' = concat (map ((#) (CHR ''/'')) [''users'', ''42''])
        \<and> list_all2 segment_matches ?i [''users'', ''42'']"
      by (simp add: digit_ranges_def in_ranges_def)
    from ti [of "''/users/42''", THEN conjunct1, THEN spec, THEN mp, OF this]
    show ?thesis unfolding pi by (simp add: bound_def)
  qed
  have 3: "matchAndParse reference_pkg ''/users/abc_9'' ''/users/:name'' = Inr (Some [''name'' \<mapsto> ''abc_9''])"
  proof -
    have "''/users/abc_9'' = concat (map ((#) (CHR ''/'')) [''users'', ''abc_9''])
        \<and> list_all2 segment_matches ?n [''users'', ''abc_9'']"
      by (simp add: word_ranges_def in_ranges_def)
    from tn [of "''/users/abc_9''", THEN conjunct1, THEN spec, THEN mp, OF this]
    show ?thesis unfolding pn by (simp add: bound_def)
  qed
  have split2: "\<And>s vals a b. s = concat (map ((#) (CHR ''/'')) vals) \<Longrightarrow>
      list_all2 segment_matches [Static a, Param b] vals \<Longrightarrow> s = CHR ''/'' # a @ CHR ''/'' # drop (length a + 2) s \<and> segment_matches (Param b) (drop (length a + 2) s)"
    by (auto simp: list_all2_Cons1)
  have 2: "matchAndParse reference_pkg ''/users/abc'' ''/users/:id'' = Inr None"
  proof -
    have "\<nexists>vals. ''/users/abc'' = concat (map ((#) (CHR ''/'')) vals) \<and> list_all2 segment_matches ?i vals"
    proof
      assume "\<exists>vals. ''/users/abc'' = concat (map ((#) (CHR ''/'')) vals) \<and> list_all2 segment_matches ?i vals"
      then obtain vals where "''/users/abc'' = concat (map ((#) (CHR ''/'')) vals)"
        "list_all2 segment_matches ?i vals" by blast
      from split2 [OF this] have "segment_matches (Param ''id'') ''abc''" by simp
      then show False by (simp add: digit_ranges_def in_ranges_def)
    qed
    from ti [of "''/users/abc''", THEN conjunct2, THEN mp, OF this]
    show ?thesis unfolding pi .
  qed
  have 4: "matchAndParse reference_pkg ''/users/a-b'' ''/users/:name'' = Inr None"
  proof -
    have "\<nexists>vals. ''/users/a-b'' = concat (map ((#) (CHR ''/'')) vals) \<and> list_all2 segment_matches ?n vals"
    proof
      assume "\<exists>vals. ''/users/a-b'' = concat (map ((#) (CHR ''/'')) vals) \<and> list_all2 segment_matches ?n vals"
      then obtain vals where "''/users/a-b'' = concat (map ((#) (CHR ''/'')) vals)"
        "list_all2 segment_matches ?n vals" by blast
      from split2 [OF this] have "segment_matches (Param ''name'') ''a-b''" by simp
      then show False by (simp add: word_ranges_def in_ranges_def)
    qed
    from tn [of "''/users/a-b''", THEN conjunct2, THEN mp, OF this]
    show ?thesis unfolding pn .
  qed
  from 1 2 3 4 show ?thesis by blast
qed

subsection \<open>Static segments\<close>




subsection \<open>Substituting the parameters back\<close>










subsection \<open>Dispatch of a static route\<close>

lemma Handle_prefix: "prefix (snd (Handle router m p h)) = prefix router"
  by (simp add: Handle_def Let_def split: sum.splits)

lemma setup_step_prefix: "prefix (snd (setup_step router c)) = prefix router"
  by (cases c) (simp_all add: Handle_prefix Use_def NotFoundFunc_def)

lemma call_route_prefix: "prefix r1 = prefix r2 \<Longrightarrow> call_route r1 c = call_route r2 c"
  by (cases c) (simp_all add: fullPath_def)

lemma Handle_keeps_exact:
  assumes "trees router meth = Some t" "exact t k = Some node"
    "\<not> (m = meth \<and> fullPath router p = k)"
  shows "\<exists>t'. trees (snd (Handle router m p h)) meth = Some t' \<and> exact t' k = Some node"
proof (cases "m = meth")
  case False
  with assms show ?thesis by (simp add: Handle_other_tree)
next
  case True
  with assms have "fullPath router p \<noteq> k" by simp
  with assms True show ?thesis
    by (auto simp: Handle_def Tree_Add_def Let_def split: sum.splits prod.splits)
qed

lemma setup_step_keeps_exact:
  assumes t: "trees router meth = Some t" and e: "exact t k = Some node"
    and c: "call_route router c \<noteq> Some (meth, k)"
  shows "\<exists>t'. trees (snd (setup_step router c)) meth = Some t' \<and> exact t' k = Some node"
proof (cases c)
  case (CallHandle m p h)
  with c have "\<not> (m = meth \<and> fullPath router p = k)" by auto
  from Handle_keeps_exact [OF t e this] CallHandle show ?thesis by simp
next
  case (CallGroupHandle g m p h)
  let ?g = "g\<lparr>trees := trees router\<rparr>"
  have f: "fullPath ?g p = fullPath g p" by (simp add: fullPath_def)
  from c CallGroupHandle have n: "\<not> (m = meth \<and> fullPath ?g p = k)" unfolding f by auto
  have t': "trees ?g meth = Some t" using t by simp
  from Handle_keeps_exact [OF t' e n] CallGroupHandle show ?thesis by simp
next
  case (CallUse mws)
  with t e show ?thesis by (simp add: Use_def)
next
  case (CallNotFoundFunc nf)
  with t e show ?thesis by (simp add: NotFoundFunc_def)
next
  case (SetPanicHandler ph)
  with t e show ?thesis by simp
qed

lemma run_setup_keeps_exact:
  assumes "trees router meth = Some t" "exact t k = Some node"
    "Some (meth, k) \<notin> set (map (call_route router) calls)"
  shows "\<exists>t'. trees (run_setup router calls) meth = Some t' \<and> exact t' k = Some node"
  using assms
proof (induction calls arbitrary: router t)
  case Nil
  then show ?case by simp
next
  case (Cons c calls)
  from Cons.prems(3) have c: "call_route router c \<noteq> Some (meth, k)" by auto
  from setup_step_keeps_exact [OF Cons.prems(1,2) c] obtain t' where
    t': "trees (snd (setup_step router c)) meth = Some t'" "exact t' k = Some node" by blast
  have "map (call_route (snd (setup_step router c))) calls = map (call_route router) calls"
    using call_route_prefix [OF setup_step_prefix] by simp
  with Cons.prems(3) have "Some (meth, k) \<notin> set (map (call_route (snd (setup_step router c))) calls)"
    by simp
  from Cons.IH [OF t' this] show ?case by simp
qed

text \<open>
  Claim C8. A route without parameters (the segment loop finds no parameter name in its
  path) that is registered for a supported method is served by its own handler when its
  registered path is requested: whatever is set up afterwards on the router and through
  its groups, short of registering the same method and path again, dispatch invokes the
  route's handler, inside the middleware of the moment of registration, with the request
  as it came in. That request carries no Parameter Context: for it \<open>GetAllParams\<close> is nil
  and \<open>GetParam\<close> is the empty string for every key.
\<close>

theorem static_route_dispatch:
  assumes meth: "methods meth \<noteq> None"
    and st: "compilePath (fullPath router p) = Inr ([], pattern)"
    and later: "Some (meth, fullPath router p) \<notin> set (map (call_route router) later)"
    and r: "Method r = meth" "URL_Path r = fullPath router p" "ctxParams r = None"
  shows "fst (Handle router meth p h) = None
       \<and> serve E (run_setup (snd (Handle router meth p h)) later) w r
           = invoke w r h (middleware router)
       \<and> GetAllParams r = None \<and> (\<forall>key. GetParam r key = [])
       \<and> ServeHTTP E (run_setup (snd (Handle router meth p h)) later) w r
           = (case handle w r h (middleware router) of
                Inr w' \<Rightarrow> Inr w'
              | Inl msg \<Rightarrow>
                  (case PanicHandler (run_setup (snd (Handle router meth p h)) later) of
                     None \<Rightarrow> Inl (HandlerPanic msg)
                   | Some ph \<Rightarrow> Inr (ph w r (HandlerPanic msg))))"
proof -
  let ?node = "\<lparr>node_path = fullPath router p, node_handle = Some h,
                 node_middleware = middleware router\<rparr>"
  let ?R = "snd (Handle router meth p h)"
  from Handle_static [OF meth st, of h] obtain t where
    H: "Handle router meth p h = (None, router\<lparr>trees := (trees router)(meth \<mapsto> t)\<rparr>)"
    and e: "exact t (fullPath router p) = Some ?node" by blast
  from H have f: "fst (Handle router meth p h) = None" by simp
  from H have t: "trees ?R meth = Some t" by simp
  have "map (call_route ?R) later = map (call_route router) later"
    using call_route_prefix [OF Handle_prefix] by simp
  with later have "Some (meth, fullPath router p) \<notin> set (map (call_route ?R) later)" by simp
  from run_setup_keeps_exact [OF t e this] obtain t' where
    t': "trees (run_setup ?R later) meth = Some t'" and e': "exact t' (fullPath router p) = Some ?node"
    by blast
  have sv: "serve E (run_setup ?R later) w r = invoke w r h (node_middleware ?node)"
  proof (rule serve_exact)
    show "trees (run_setup ?R later) (Method r) = Some t'" using t' r by simp
    show "exact t' (URL_Path r) = Some ?node" using e' r by simp
    show "node_path ?node = URL_Path r" using r by simp
    show "node_handle ?node = Some h" by simp
  qed
  then have sv': "serve E (run_setup ?R later) w r = invoke w r h (middleware router)" by simp
  have g: "GetAllParams r = None" "\<forall>key. GetParam r key = []"
    using r by (simp_all add: GetAllParams_def GetParam_def)
  note d = ServeHTTP_invoke [OF sv']
  from f sv' g d show ?thesis by blast
qed

theorem static_route_dispatch_witness:
  "ServeHTTP reference_pkg
     (run_setup (snd (Handle New ''GET'' ''/health'' (\<lambda>w r. Inr (w\<lparr>written := ''up'' @ GetParam r ''id''\<rparr>))))
        [CallHandle ''GET'' ''/users/:id'' (terminal ''user''),
         CallUse [logging ''x''],
         CallGroupHandle (Group New ''api'') ''GET'' ''health'' (terminal ''api'')])
     \<lparr>statusCode = 0, written = []\<rparr>
     \<lparr>Method = ''GET'', URL_Path = ''/health'', ctxParams = None\<rparr>
   = Inr \<lparr>statusCode = 0, written = ''up''\<rparr>"
proof -
  let ?h = "\<lambda>w r. Inr (w\<lparr>written := ''up'' @ GetParam r ''id''\<rparr>)"
  let ?later = "[CallHandle ''GET'' ''/users/:id'' (terminal ''user''),
         CallUse [logging ''x''],
         CallGroupHandle (Group New ''api'') ''GET'' ''health'' (terminal ''api'')]"
  let ?r = "\<lparr>Method = ''GET'', URL_Path = ''/health'', ctxParams = None\<rparr>"
  have meth: "methods ''GET'' \<noteq> None" by (simp add: methods_def)
  have st: "compilePath (fullPath New ''/health'') = Inr ([], ''/health'')"
    by (simp add: fullPath_def New_def compilePath_def)
  have later: "Some (''GET'', fullPath New ''/health'') \<notin> set (map (call_route New) ?later)"
    by (simp add: fullPath_def New_def Group_def)
  have r: "Method ?r = ''GET''" "URL_Path ?r = fullPath New ''/health''" "ctxParams ?r = None"
    by (simp_all add: fullPath_def New_def)
  note t = static_route_dispatch [OF meth st later r, where h = ?h and E = reference_pkg
      and w = "\<lparr>statusCode = 0, written = []\<rparr>"]
  have m: "middleware New = []" by (simp add: New_def)
  from t show ?thesis by (simp add: m handle_def GetParam_def GetAllParams_def)
qed

subsection \<open>Malformed route paths\<close>



















end
